theory Spec2Isabelle
  imports Main "HOL-Library.AList"
begin

section \<open>Lua values\<close>

text \<open>
  The filter \<^verbatim>\<open>fluent-bit/aggregate.lua\<close> is a Lua script. The values it handles are
  nil, booleans, numbers, strings and tables. A table is read only through string keys
  here, so it is a function from field name to value, where \<open>LNil\<close> is an absent field
  (in Lua \<^verbatim>\<open>t[k] == nil\<close> exactly when the field is absent). The number type is a
  parameter \<open>'n\<close>; the rendering of a number as a string, which \<^verbatim>\<open>string.find\<close> and
  \<^verbatim>\<open>table.concat\<close> apply to a number argument, is the parameter \<open>tostr\<close> of the
  functions below.
\<close>

datatype 'n lua_value =
    LNil
  | LBool bool
  | LNum 'n
  | LStr string
  | LTable "string \<Rightarrow> 'n lua_value"

text \<open>What the script can raise: a bad argument to \<^verbatim>\<open>string.find\<close>, an invalid value
  in \<^verbatim>\<open>table.concat\<close>, and indexing a nil value.\<close>

datatype lua_error = BadArgument | InvalidValue | IndexNil

text \<open>Only nil and false are false in a Lua condition; \<^verbatim>\<open>a or b\<close> is \<open>a\<close> unless \<open>a\<close>
  is false or nil.\<close>

fun truthy :: "'n lua_value \<Rightarrow> bool" where
  "truthy LNil = False"
| "truthy (LBool b) = b"
| "truthy (LNum n) = True"
| "truthy (LStr s) = True"
| "truthy (LTable t) = True"

definition lua_or :: "'n lua_value \<Rightarrow> 'n lua_value \<Rightarrow> 'n lua_value" where
  "lua_or a b = (if truthy a then a else b)"

text \<open>A string argument of the string library: strings as they are, numbers converted,
  anything else is an error.\<close>

fun string_arg :: "('n \<Rightarrow> string) \<Rightarrow> 'n lua_value \<Rightarrow> lua_error + string" where
  "string_arg tostr (LStr s) = Inr s"
| "string_arg tostr (LNum n) = Inr (tostr n)"
| "string_arg tostr LNil = Inl BadArgument"
| "string_arg tostr (LBool b) = Inl BadArgument"
| "string_arg tostr (LTable t) = Inl BadArgument"

fun starts_with :: "string \<Rightarrow> string \<Rightarrow> bool" where
  "starts_with s [] = True"
| "starts_with [] (c # p) = False"
| "starts_with (c # s) (d # p) = (c = d \<and> starts_with s p)"

text \<open>\<^verbatim>\<open>string.find(s, p)\<close> for a pattern with no magic character (the only pattern
  of the script, \<^verbatim>\<open>"request completed"\<close>, has none): the 1-based index of the first
  occurrence of \<open>p\<close> in \<open>s\<close>, or nil.\<close>

fun str_find :: "string \<Rightarrow> string \<Rightarrow> nat option" where
  "str_find [] p = (if p = [] then Some 1 else None)"
| "str_find (c # s) p =
     (if starts_with (c # s) p then Some 1 else map_option Suc (str_find s p))"

definition string_find :: "('n \<Rightarrow> string) \<Rightarrow> 'n lua_value \<Rightarrow> string \<Rightarrow> lua_error + nat option" where
  "string_find tostr v p =
     (case string_arg tostr v of Inl e \<Rightarrow> Inl e | Inr s \<Rightarrow> Inr (str_find s p))"

text \<open>\<^verbatim>\<open>table.concat(list, sep)\<close>: every element must be a string or a number.\<close>

fun concat_arg :: "('n \<Rightarrow> string) \<Rightarrow> 'n lua_value \<Rightarrow> lua_error + string" where
  "concat_arg tostr (LStr s) = Inr s"
| "concat_arg tostr (LNum n) = Inr (tostr n)"
| "concat_arg tostr LNil = Inl InvalidValue"
| "concat_arg tostr (LBool b) = Inl InvalidValue"
| "concat_arg tostr (LTable t) = Inl InvalidValue"

fun table_concat :: "('n \<Rightarrow> string) \<Rightarrow> 'n lua_value list \<Rightarrow> string \<Rightarrow> lua_error + string" where
  "table_concat tostr [] sep = Inr []"
| "table_concat tostr [v] sep = concat_arg tostr v"
| "table_concat tostr (v # w # vs) sep =
     (case concat_arg tostr v of
        Inl e \<Rightarrow> Inl e
      | Inr s \<Rightarrow>
          (case table_concat tostr (w # vs) sep of
             Inl e \<Rightarrow> Inl e
           | Inr t \<Rightarrow> Inr (s @ sep @ t)))"

section \<open>The state of the filter\<close>

text \<open>An entry of \<^verbatim>\<open>buffer\<close>, as line 96 builds it. The field \<^verbatim>\<open>method\<close> is
  \<open>method_field\<close> here, the plain name being reserved in Isabelle.\<close>

record 'n entry =
  traceId :: string
  messages :: "'n lua_value list"
  method_field :: "'n lua_value"
  path :: "'n lua_value"
  status :: "'n lua_value"
  latencyMs :: "'n lua_value"
  last_seen :: int
  completed :: bool

text \<open>
  The script's module-level variables. \<^verbatim>\<open>buffer\<close> is a table keyed by trace id that the
  cleanup traverses with \<^verbatim>\<open>pairs\<close>, so it is an association list with distinct keys:
  \<open>map_of\<close> reads it, \<open>AList.update\<close> and \<open>AList.delete\<close> write it, and \<^verbatim>\<open>pairs\<close> visits
  it in list order (Lua leaves the order open). \<^verbatim>\<open>buffer_order\<close> is a Lua sequence.
\<close>

record 'n state =
  buffer :: "(string \<times> 'n entry) list"
  buffer_order :: "string list"
  cleanup_counter :: nat

definition MAX_BUFFER_SIZE :: nat where
  "MAX_BUFFER_SIZE = 1000"

definition STALE_TIMEOUT_SEC :: int where
  "STALE_TIMEOUT_SEC = 30"

definition CLEANUP_INTERVAL :: nat where
  "CLEANUP_INTERVAL = 100"

definition completion_marker :: string where
  "completion_marker = ''request completed''"

definition init_state :: "'n state" where
  "init_state = \<lparr>buffer = [], buffer_order = [], cleanup_counter = 0\<rparr>"

section \<open>cleanup_buffer\<close>

text \<open>Lines 24-29: the trace ids of the entries older than the timeout.\<close>

definition stale_trace_ids :: "int \<Rightarrow> (string \<times> 'n entry) list \<Rightarrow> string list" where
  "stale_trace_ids current_time buf =
     map fst (filter (\<lambda>(tid, e). current_time - last_seen e > STALE_TIMEOUT_SEC) buf)"

text \<open>Lines 31-40: each stale id leaves the buffer, and its first occurrence leaves the
  order.\<close>

fun remove_stale :: "string list \<Rightarrow> 'n state \<Rightarrow> 'n state" where
  "remove_stale [] st = st"
| "remove_stale (tid # tids) st =
     remove_stale tids
       (st\<lparr>buffer := AList.delete tid (buffer st),
           buffer_order := remove1 tid (buffer_order st)\<rparr>)"

text \<open>Lines 44-47 and 90-93: \<^verbatim>\<open>table.remove(buffer_order, 1)\<close> and the removal of that
  id from the buffer. On an empty sequence \<^verbatim>\<open>table.remove\<close> returns nil and nothing
  changes.\<close>

definition evict_oldest :: "'n state \<Rightarrow> 'n state" where
  "evict_oldest st =
     (case buffer_order st of
        [] \<Rightarrow> st
      | oldest_traceId # rest \<Rightarrow>
          st\<lparr>buffer := AList.delete oldest_traceId (buffer st), buffer_order := rest\<rparr>)"

text \<open>Lines 43-48: the while loop.\<close>

function enforce_max_size :: "'n state \<Rightarrow> 'n state" where
  "enforce_max_size st =
     (if length (buffer_order st) > MAX_BUFFER_SIZE
      then enforce_max_size (evict_oldest st) else st)"
  by pat_completeness auto
termination
  by (relation "measure (\<lambda>st. length (buffer_order st))")
     (auto simp: evict_oldest_def MAX_BUFFER_SIZE_def split: list.splits)

declare enforce_max_size.simps [simp del]

definition cleanup_buffer :: "int \<Rightarrow> 'n state \<Rightarrow> 'n state" where
  "cleanup_buffer current_time st =
     (let st1 = st\<lparr>cleanup_counter := cleanup_counter st + 1\<rparr> in
      if cleanup_counter st1 < CLEANUP_INTERVAL then st1
      else
        let st2 = st1\<lparr>cleanup_counter := 0\<rparr>;
            stale = stale_trace_ids current_time (buffer st2)
        in enforce_max_size (remove_stale stale st2))"

section \<open>combine_logs\<close>

text \<open>Lines 52-62.\<close>

definition update_lru_order :: "string \<Rightarrow> string list \<Rightarrow> string list" where
  "update_lru_order tid order = remove1 tid order @ [tid]"

text \<open>Lines 96-105.\<close>

definition new_entry :: "string \<Rightarrow> (string \<Rightarrow> 'n lua_value) \<Rightarrow> int \<Rightarrow> 'n entry" where
  "new_entry tid r current_time =
     \<lparr>traceId = tid, messages = [],
      method_field = lua_or (r ''method'') LNil,
      path = lua_or (r ''path'') LNil,
      status = lua_or (r ''status'') LNil,
      latencyMs = lua_or (r ''latencyMs'') LNil,
      last_seen = current_time, completed = False\<rparr>"

text \<open>Lines 121-135: the message is appended, and each of the four fields that the
  record has replaces the stored one.\<close>

definition apply_record :: "'n lua_value \<Rightarrow> (string \<Rightarrow> 'n lua_value) \<Rightarrow> 'n entry \<Rightarrow> 'n entry" where
  "apply_record message r e =
     (let e1 = e\<lparr>messages := messages e @ [message]\<rparr>;
          e2 = (if r ''method'' \<noteq> LNil then e1\<lparr>method_field := r ''method''\<rparr> else e1);
          e3 = (if r ''path'' \<noteq> LNil then e2\<lparr>path := r ''path''\<rparr> else e2);
          e4 = (if r ''status'' \<noteq> LNil then e3\<lparr>status := r ''status''\<rparr> else e3)
      in if r ''latencyMs'' \<noteq> LNil then e4\<lparr>latencyMs := r ''latencyMs''\<rparr> else e4)"

text \<open>Lines 141-148. A field set to nil is an absent field.\<close>

definition combined_record :: "'n entry \<Rightarrow> string \<Rightarrow> 'n lua_value" where
  "combined_record e joined =
     LTable ((\<lambda>k. LNil)
       (''traceId'' := LStr (traceId e),
        ''message'' := LStr joined,
        ''method'' := method_field e,
        ''path'' := path e,
        ''status'' := status e,
        ''latencyMs'' := latencyMs e))"

type_synonym ('n, 't) lua_return = "lua_error + (int \<times> 't \<times> 'n lua_value)"

text \<open>Lines 120-165, for the state \<open>st\<close> in which the entry of \<open>tid\<close> exists. The state
  is returned as it is when the function returns or raises.\<close>

definition append_and_flush ::
  "('n \<Rightarrow> string) \<Rightarrow> string \<Rightarrow> 't \<Rightarrow> 'n lua_value \<Rightarrow> (string \<Rightarrow> 'n lua_value) \<Rightarrow>
     'n lua_value \<Rightarrow> bool \<Rightarrow> 'n state \<Rightarrow> ('n, 't) lua_return \<times> 'n state" where
  "append_and_flush tostr tid timestamp record r message is_complete st =
     (case map_of (buffer st) tid of
        None \<Rightarrow> (Inl IndexNil, st)
      | Some e \<Rightarrow>
          (let e1 = apply_record message r e in
           if is_complete then
             (let e2 = e1\<lparr>completed := True\<rparr> in
              case table_concat tostr (messages e2) [CHR 0x0A] of
                Inl err \<Rightarrow> (Inl err, st\<lparr>buffer := AList.update tid e2 (buffer st)\<rparr>)
              | Inr joined \<Rightarrow>
                  (Inr (1, timestamp, combined_record e2 joined),
                   st\<lparr>buffer := AList.delete tid (buffer st),
                      buffer_order := remove1 tid (buffer_order st)\<rparr>))
           else
             (Inr (- 1, timestamp, record),
              st\<lparr>buffer := AList.update tid e1 (buffer st)\<rparr>)))"

text \<open>Lines 77-118 and on, for a record \<open>r\<close> whose trace id \<open>tid\<close> is a non-empty string.
  \<open>current_time\<close> is what \<^verbatim>\<open>os.time()\<close> returns in this call.\<close>

definition aggregate ::
  "('n \<Rightarrow> string) \<Rightarrow> string \<Rightarrow> 't \<Rightarrow> 'n lua_value \<Rightarrow> (string \<Rightarrow> 'n lua_value) \<Rightarrow>
     int \<Rightarrow> 'n state \<Rightarrow> ('n, 't) lua_return \<times> 'n state" where
  "aggregate tostr tid timestamp record r current_time st =
     (let st1 = cleanup_buffer current_time st;
          message = lua_or (r ''message'') (LStr [])
      in case string_find tostr message completion_marker of
           Inl err \<Rightarrow> (Inl err, st1)
         | Inr found \<Rightarrow>
             (let is_complete = (found \<noteq> None) in
              case map_of (buffer st1) tid of
                None \<Rightarrow>
                  (let st2 = (if length (buffer_order st1) \<ge> MAX_BUFFER_SIZE
                              then evict_oldest st1 else st1);
                       st3 = st2\<lparr>buffer := AList.update tid (new_entry tid r current_time) (buffer st2),
                                  buffer_order := buffer_order st2 @ [tid]\<rparr>
                   in append_and_flush tostr tid timestamp record r message is_complete st3)
              | Some e \<Rightarrow>
                  (let st2 = st1\<lparr>buffer := AList.update tid (e\<lparr>last_seen := current_time\<rparr>) (buffer st1),
                                  buffer_order := update_lru_order tid (buffer_order st1)\<rparr>
                   in if completed e \<and> is_complete
                      then (Inr (- 1, timestamp, record), st2)
                      else append_and_flush tostr tid timestamp record r message is_complete st2)))"

text \<open>
  The filter function. Fluent Bit calls it once for every record, with the tag, the
  record's timestamp and the record; the return code is \<open>-1\<close> to drop the record and \<open>1\<close>
  to replace it by the returned one. The clock reading \<^verbatim>\<open>os.time()\<close> of the call is the
  argument \<open>current_time\<close>. The result is paired with the module state after the call.
\<close>

definition combine_logs ::
  "('n \<Rightarrow> string) \<Rightarrow> 'n state \<Rightarrow> string \<Rightarrow> 't \<Rightarrow> 'n lua_value \<Rightarrow> int \<Rightarrow>
     ('n, 't) lua_return \<times> 'n state" where
  "combine_logs tostr st tag timestamp record current_time =
     (case record of
        LTable r \<Rightarrow>
          (case r ''traceId'' of
             LStr tid \<Rightarrow>
               if tid = [] then (Inr (1, timestamp, record), st)
               else aggregate tostr tid timestamp record r current_time st
           | _ \<Rightarrow> (Inr (1, timestamp, record), st))
      | _ \<Rightarrow> (Inr (1, timestamp, record), st))"

text \<open>A stream of calls: the filter is called on each record in turn, the module
  variables persisting from one call to the next (also after a call that raised).\<close>

type_synonym ('n, 't) call = "string \<times> 't \<times> 'n lua_value \<times> int"

fun run_logs ::
  "('n \<Rightarrow> string) \<Rightarrow> 'n state \<Rightarrow> ('n, 't) call list \<Rightarrow> ('n, 't) lua_return list \<times> 'n state" where
  "run_logs tostr st [] = ([], st)"
| "run_logs tostr st ((tag, timestamp, record, current_time) # cs) =
     (let (res, st1) = combine_logs tostr st tag timestamp record current_time;
          (ress, st2) = run_logs tostr st1 cs
      in (res # ress, st2))"

inductive reachable :: "('n \<Rightarrow> string) \<Rightarrow> 'n state \<Rightarrow> bool" for tostr :: "'n \<Rightarrow> string" where
  reachable_init: "reachable tostr init_state"
| reachable_step:
    "reachable tostr st \<Longrightarrow>
     reachable tostr (snd (combine_logs tostr st tag (timestamp :: 'n) record current_time))"

section \<open>The vocabulary of the properties\<close>

text \<open>
  The definitions from here on are not part of the script. They are the predicates and
  functions in which the properties are stated and proved, and the concrete inputs of
  the worked scenarios.
\<close>

declare run_logs.simps(2) [simp del]

subsection \<open>Invariants\<close>

text \<open>The eviction order lists every key of the buffer exactly once.\<close>

definition lru_inv :: "'n state \<Rightarrow> bool" where
  "lru_inv st \<longleftrightarrow>
     distinct (map fst (buffer st)) \<and> distinct (buffer_order st) \<and>
     set (buffer_order st) = fst ` set (buffer st)"

text \<open>The values that \<^verbatim>\<open>string.find\<close> and \<^verbatim>\<open>table.concat\<close> accept, and the string they
  read them as.\<close>

fun stringlike :: "'n lua_value \<Rightarrow> bool" where
  "stringlike (LStr s) = True"
| "stringlike (LNum n) = True"
| "stringlike LNil = False"
| "stringlike (LBool b) = False"
| "stringlike (LTable t) = False"

fun render :: "('n \<Rightarrow> string) \<Rightarrow> 'n lua_value \<Rightarrow> string" where
  "render tostr (LStr s) = s"
| "render tostr (LNum n) = tostr n"
| "render tostr LNil = []"
| "render tostr (LBool b) = []"
| "render tostr (LTable t) = []"

text \<open>An entry is stored under its own trace id, is not completed, and holds only
  messages that can be concatenated.\<close>

definition entry_ok :: "string \<Rightarrow> 'n entry \<Rightarrow> bool" where
  "entry_ok k e \<longleftrightarrow> traceId e = k \<and> \<not> completed e \<and> (\<forall>m \<in> set (messages e). stringlike m)"

definition entries_ok :: "'n state \<Rightarrow> bool" where
  "entries_ok st \<longleftrightarrow>
     (\<forall>(k, e) \<in> set (buffer st).
        traceId e = k \<and> \<not> completed e \<and> (\<forall>m \<in> set (messages e). stringlike m))"

definition bounded :: "'n state \<Rightarrow> bool" where
  "bounded st \<longleftrightarrow>
     length (buffer_order st) \<le> MAX_BUFFER_SIZE \<and> cleanup_counter st < CLEANUP_INTERVAL"

definition state_inv :: "'n state \<Rightarrow> bool" where
  "state_inv st \<longleftrightarrow> lru_inv st \<and> bounded st \<and> entries_ok st"

text \<open>The test of line 26, and the eviction of lines 88-94.\<close>

definition stale :: "int \<Rightarrow> 'n entry \<Rightarrow> bool" where
  "stale current_time e \<longleftrightarrow> current_time - last_seen e > STALE_TIMEOUT_SEC"

definition make_room :: "'n state \<Rightarrow> 'n state" where
  "make_room st = (if length (buffer_order st) \<ge> MAX_BUFFER_SIZE then evict_oldest st else st)"

text \<open>The order after a step that only removes keys is the old order without them.\<close>

definition thins :: "'n state \<Rightarrow> 'n state \<Rightarrow> bool" where
  "thins st st' \<longleftrightarrow> (\<exists>Q. buffer_order st' = filter Q (buffer_order st))"

subsection \<open>Records and calls\<close>

text \<open>The trace id field of a record (nil for a value that is not a table), and whether
  it is a non-empty string.\<close>

fun trace_id_of :: "'n lua_value \<Rightarrow> 'n lua_value" where
  "trace_id_of (LTable r) = r ''traceId''"
| "trace_id_of LNil = LNil"
| "trace_id_of (LBool b) = LNil"
| "trace_id_of (LNum n) = LNil"
| "trace_id_of (LStr s) = LNil"

fun valid_key :: "'n lua_value \<Rightarrow> bool" where
  "valid_key (LStr s) = (s \<noteq> [])"
| "valid_key LNil = False"
| "valid_key (LBool b) = False"
| "valid_key (LNum n) = False"
| "valid_key (LTable t) = False"

text \<open>The message of a record as line 82 reads it, and the completion signal: the
  message contains the marker.\<close>

definition message_of :: "(string \<Rightarrow> 'n lua_value) \<Rightarrow> 'n lua_value" where
  "message_of r = lua_or (r ''message'') (LStr [])"

definition is_completion :: "('n \<Rightarrow> string) \<Rightarrow> (string \<Rightarrow> 'n lua_value) \<Rightarrow> bool" where
  "is_completion tostr r \<longleftrightarrow> (\<exists>a b. render tostr (message_of r) = a @ completion_marker @ b)"

text \<open>Strings joined with a separator, and the newline.\<close>

fun join_with :: "string \<Rightarrow> string list \<Rightarrow> string" where
  "join_with sep [] = []"
| "join_with sep [s] = s"
| "join_with sep (s # t # ss) = s @ sep @ join_with sep (t # ss)"

definition newline :: string where
  "newline = [CHR 0x0A]"

text \<open>The last value other than nil that the records \<open>rs\<close> give to the field \<open>f\<close>, nil
  when there is none; and one step of it.\<close>

definition last_present :: "string \<Rightarrow> (string \<Rightarrow> 'n lua_value) list \<Rightarrow> 'n lua_value" where
  "last_present f rs =
     (case filter (\<lambda>v. v \<noteq> LNil) (map (\<lambda>r. r f) rs) of [] \<Rightarrow> LNil | v # vs \<Rightarrow> last (v # vs))"

definition overwrite :: "string \<Rightarrow> 'n lua_value \<Rightarrow> (string \<Rightarrow> 'n lua_value) \<Rightarrow> 'n lua_value" where
  "overwrite f v r = (if r f = LNil then v else r f)"

text \<open>A table with no field, and the table that \<open>combined_record\<close> builds.\<close>

definition empty_table :: "string \<Rightarrow> 'n lua_value" where
  "empty_table k = LNil"

definition combined_table :: "'n entry \<Rightarrow> string \<Rightarrow> string \<Rightarrow> 'n lua_value" where
  "combined_table e joined =
     (empty_table
       (''traceId'' := LStr (traceId e),
        ''message'' := LStr joined,
        ''method'' := method_field e,
        ''path'' := path e,
        ''status'' := status e,
        ''latencyMs'' := latencyMs e))"

text \<open>A call of the filter on a record that is a table: tag, timestamp, the table and
  the clock reading of the call.\<close>

type_synonym ('n, 't) table_call = "string \<times> 't \<times> (string \<Rightarrow> 'n lua_value) \<times> int"

definition to_call :: "('n, 't) table_call \<Rightarrow> ('n, 't) call" where
  "to_call c = (case c of (tag, ts, r, t) \<Rightarrow> (tag, ts, LTable r, t))"

definition call_table :: "('n, 't) table_call \<Rightarrow> (string \<Rightarrow> 'n lua_value)" where
  "call_table c = (case c of (tag, ts, r, t) \<Rightarrow> r)"

definition call_time :: "('n, 't) table_call \<Rightarrow> int" where
  "call_time c = (case c of (tag, ts, r, t) \<Rightarrow> t)"

definition call_ts :: "('n, 't) table_call \<Rightarrow> 't" where
  "call_ts c = (case c of (tag, ts, r, t) \<Rightarrow> ts)"

definition call_key :: "('n, 't) table_call \<Rightarrow> string" where
  "call_key c = (case call_table c ''traceId'' of LStr s \<Rightarrow> s | _ \<Rightarrow> [])"

text \<open>What the filter returns when it drops the record of a call.\<close>

definition suppressed :: "('n, 't) table_call \<Rightarrow> ('n, 't) lua_return" where
  "suppressed c = (case c of (tag, ts, r, t) \<Rightarrow> Inr (- 1, ts, LTable r))"

text \<open>Kinds of calls: with a valid trace id; with a valid trace id other than \<open>k\<close>; with
  a valid trace id and a message that is a string (or a number, or absent) and is no
  completion signal.\<close>

definition valid_call :: "('n, 't) table_call \<Rightarrow> bool" where
  "valid_call c \<longleftrightarrow> (\<exists>tid. call_table c ''traceId'' = LStr tid \<and> tid \<noteq> [])"

definition other_call :: "string \<Rightarrow> ('n, 't) table_call \<Rightarrow> bool" where
  "other_call k c \<longleftrightarrow> (\<exists>tid. call_table c ''traceId'' = LStr tid \<and> tid \<noteq> [] \<and> tid \<noteq> k)"

definition incomplete_call :: "('n \<Rightarrow> string) \<Rightarrow> ('n, 't) table_call \<Rightarrow> bool" where
  "incomplete_call tostr c \<longleftrightarrow>
     call_table c ''traceId'' = LStr (call_key c) \<and> call_key c \<noteq> [] \<and>
     stringlike (message_of (call_table c)) \<and> \<not> is_completion tostr (call_table c)"

text \<open>The entry after the records of the calls \<open>cs\<close> have been applied to it in turn, and
  the entry of a trace whose records are \<open>cs\<close>, the first of them creating it.\<close>

fun apply_all :: "'n entry \<Rightarrow> ('n, 't) table_call list \<Rightarrow> 'n entry" where
  "apply_all e [] = e"
| "apply_all e (c # cs) =
     apply_all (apply_record (message_of (call_table c)) (call_table c) (e\<lparr>last_seen := call_time c\<rparr>)) cs"

definition group_of :: "string \<Rightarrow> ('n, 't) table_call list \<Rightarrow> 'n entry" where
  "group_of tid cs =
     apply_all (new_entry tid (call_table (hd cs)) (call_time (hd cs))) cs"

text \<open>Clock readings: each at most the timeout after the one before it; each at most the
  timeout after every earlier one.\<close>

fun gaps_ok :: "int list \<Rightarrow> bool" where
  "gaps_ok (a # b # ts) = (b - a \<le> STALE_TIMEOUT_SEC \<and> gaps_ok (b # ts))"
| "gaps_ok [a] = True"
| "gaps_ok [] = True"

fun spread_ok :: "int list \<Rightarrow> bool" where
  "spread_ok [] = True"
| "spread_ok (t # ts) = ((\<forall>u \<in> set ts. u - t \<le> STALE_TIMEOUT_SEC) \<and> spread_ok ts)"

subsection \<open>Concrete inputs\<close>

text \<open>Numbers are integers in the scenarios, written in decimal.\<close>

definition digit_of :: "nat \<Rightarrow> char" where
  "digit_of d = ''0123456789'' ! d"

fun decimal :: "nat \<Rightarrow> string" where
  "decimal n = (if n < 10 then [digit_of n] else decimal (n div 10) @ [digit_of (n mod 10)])"

declare decimal.simps [simp del]

definition tostring_int :: "int \<Rightarrow> string" where
  "tostring_int i = (if i < 0 then CHR ''-'' # decimal (nat (- i)) else decimal (nat i))"

text \<open>The two records of Scenario A, the record they combine to, and the record that the
  second gives on its own.\<close>

definition table_a1 :: "string \<Rightarrow> int lua_value" where
  "table_a1 = empty_table
     (''traceId'' := LStr ''abc'', ''message'' := LStr ''handler finished'',
      ''status'' := LNum 200)"

definition table_a2 :: "string \<Rightarrow> int lua_value" where
  "table_a2 = empty_table
     (''traceId'' := LStr ''abc'', ''message'' := LStr ''request completed'',
      ''status'' := LNum 200, ''latencyMs'' := LNum 52)"

definition table_a_combined :: "string \<Rightarrow> int lua_value" where
  "table_a_combined = empty_table
     (''traceId'' := LStr ''abc'',
      ''message'' := LStr (''handler finished'' @ newline @ ''request completed''),
      ''status'' := LNum 200, ''latencyMs'' := LNum 52)"

definition table_a2_alone :: "string \<Rightarrow> int lua_value" where
  "table_a2_alone = empty_table
     (''traceId'' := LStr ''abc'', ''message'' := LStr ''request completed'',
      ''status'' := LNum 200, ''latencyMs'' := LNum 52)"

text \<open>A record of another trace, a record with no trace id, and two records of trace
  \<^verbatim>\<open>abc\<close> of which the first sets the path and the second only the status.\<close>

definition table_b1 :: "string \<Rightarrow> int lua_value" where
  "table_b1 = empty_table (''traceId'' := LStr ''xyz'', ''message'' := LStr ''handler finished'')"

definition table_nokey :: "string \<Rightarrow> int lua_value" where
  "table_nokey = empty_table (''message'' := LStr ''request completed'')"

definition table_p1 :: "string \<Rightarrow> int lua_value" where
  "table_p1 = empty_table
     (''traceId'' := LStr ''abc'', ''message'' := LStr ''handler started'',
      ''method'' := LStr ''GET'', ''path'' := LStr ''/hello'')"

definition table_p2 :: "string \<Rightarrow> int lua_value" where
  "table_p2 = empty_table
     (''traceId'' := LStr ''abc'', ''message'' := LStr ''handler finished'',
      ''status'' := LNum 200)"

definition call_a1 :: "(int, int) table_call" where
  "call_a1 = (''app'', 0, table_a1, 0)"

definition call_a2 :: "(int, int) table_call" where
  "call_a2 = (''app'', 0, table_a2, 1)"

definition call_a2_late :: "(int, int) table_call" where
  "call_a2_late = (''app'', 0, table_a2, 31)"

definition call_b1 :: "(int, int) table_call" where
  "call_b1 = (''app'', 0, table_b1, 31)"

text \<open>The state after \<open>n\<close> records \<open>table_a1\<close> at time 0, the state after 99 of them, and
  the state after the record \<open>table_p1\<close> at time 0.\<close>

definition entry_a :: "nat \<Rightarrow> int entry" where
  "entry_a n =
     \<lparr>traceId = ''abc'', messages = replicate n (LStr ''handler finished''),
      method_field = LNil, path = LNil, status = LNum 200, latencyMs = LNil,
      last_seen = 0, completed = False\<rparr>"

definition state_a :: "nat \<Rightarrow> int state" where
  "state_a n = \<lparr>buffer = [(''abc'', entry_a n)], buffer_order = [''abc''], cleanup_counter = n\<rparr>"

definition st_99 :: "int state" where
  "st_99 = snd (run_logs tostring_int init_state (map to_call (replicate 99 call_a1)))"

definition entry_p :: "int entry" where
  "entry_p =
     \<lparr>traceId = ''abc'', messages = [LStr ''handler started''],
      method_field = LStr ''GET'', path = LStr ''/hello'', status = LNil, latencyMs = LNil,
      last_seen = 0, completed = False\<rparr>"

definition state_p :: "int state" where
  "state_p = \<lparr>buffer = [(''abc'', entry_p)], buffer_order = [''abc''], cleanup_counter = 1\<rparr>"

text \<open>Scenario B: the traces \<^verbatim>\<open>k\<close>, \<^verbatim>\<open>kk\<close>, \<^verbatim>\<open>kkk\<close>, ..., one record each with no message,
  all at time 0; and the state after the first 1000 of them.\<close>

definition key_k :: "nat \<Rightarrow> string" where
  "key_k i = replicate (Suc i) (CHR ''k'')"

definition table_k :: "nat \<Rightarrow> string \<Rightarrow> int lua_value" where
  "table_k i = empty_table (''traceId'' := LStr (key_k i))"

definition call_k :: "nat \<Rightarrow> (int, int) table_call" where
  "call_k i = (''app'', 0, table_k i, 0)"

definition st_full :: "int state" where
  "st_full = snd (run_logs tostring_int init_state (map to_call (map call_k [0..<1000])))"

text \<open>Scenario B with a pause: the first 999 of these traces at time 0, then the traces
  number 999 and 1000 at time 31; and the state after the first 999.\<close>

definition call_k_late :: "nat \<Rightarrow> (int, int) table_call" where
  "call_k_late i = (''app'', 0, table_k i, 31)"

definition st_k999 :: "int state" where
  "st_k999 = snd (run_logs tostring_int init_state (map to_call (map call_k [0..<999])))"

section \<open>Auxiliary lemmas\<close>

subsection \<open>The order lists the keys of the buffer\<close>

lemma keys_delete: "fst ` set (AList.delete k al) = fst ` set al - {k}"
  by (auto simp: AList.delete_eq)

lemma lru_inv_delete_remove1:
  assumes "lru_inv st"
  shows "lru_inv (st\<lparr>buffer := AList.delete k (buffer st), buffer_order := remove1 k (buffer_order st)\<rparr>)"
  using assms by (auto simp: lru_inv_def keys_delete AList.distinct_delete)

lemma evict_oldest_Cons:
  "buffer_order st = k # ks \<Longrightarrow>
   evict_oldest st = st\<lparr>buffer := AList.delete k (buffer st), buffer_order := remove1 k (buffer_order st)\<rparr>"
  by (simp add: evict_oldest_def)

lemma lru_inv_evict_oldest: "lru_inv st \<Longrightarrow> lru_inv (evict_oldest st)"
proof (cases "buffer_order st")
  case Nil
  assume "lru_inv st"
  with Nil show ?thesis by (simp add: evict_oldest_def)
next
  case (Cons k ks)
  assume "lru_inv st"
  then show ?thesis
    unfolding evict_oldest_Cons [OF Cons] by (rule lru_inv_delete_remove1)
qed

lemma lru_inv_remove_stale: "lru_inv st \<Longrightarrow> lru_inv (remove_stale ids st)"
proof (induction ids arbitrary: st)
  case Nil
  then show ?case by simp
next
  case (Cons k ids)
  show ?case
    using Cons.IH [OF lru_inv_delete_remove1 [OF Cons.prems, of k]] by simp
qed

lemma lru_inv_enforce_max_size: "lru_inv st \<Longrightarrow> lru_inv (enforce_max_size st)"
proof (induction st rule: enforce_max_size.induct)
  case (1 st)
  show ?case
  proof (cases "length (buffer_order st) > MAX_BUFFER_SIZE")
    case True
    then show ?thesis
      using 1 lru_inv_evict_oldest [of st] by (simp add: enforce_max_size.simps [of st])
  next
    case False
    then show ?thesis using 1 by (simp add: enforce_max_size.simps [of st])
  qed
qed

lemma lru_inv_counter [simp]: "lru_inv (st\<lparr>cleanup_counter := c\<rparr>) = lru_inv st"
  by (simp add: lru_inv_def)

lemma lru_inv_cleanup_buffer: "lru_inv st \<Longrightarrow> lru_inv (cleanup_buffer t st)"
  by (simp add: cleanup_buffer_def Let_def lru_inv_enforce_max_size lru_inv_remove_stale)

lemma map_of_None_keys: "map_of al k = None \<longleftrightarrow> k \<notin> fst ` set al"
  by (simp add: map_of_eq_None_iff)

lemma lru_inv_insert_new:
  assumes "lru_inv st" "k \<notin> fst ` set (buffer st)"
  shows "lru_inv (st\<lparr>buffer := AList.update k v (buffer st), buffer_order := buffer_order st @ [k]\<rparr>)"
  using assms by (auto simp: lru_inv_def AList.dom_update AList.distinct_update)

lemma lru_inv_touch:
  assumes "lru_inv st" "k \<in> fst ` set (buffer st)"
  shows "lru_inv (st\<lparr>buffer := AList.update k v (buffer st), buffer_order := update_lru_order k (buffer_order st)\<rparr>)"
  using assms by (auto simp: lru_inv_def AList.dom_update AList.distinct_update update_lru_order_def)

lemma lru_inv_update_present:
  assumes "lru_inv st" "k \<in> fst ` set (buffer st)"
  shows "lru_inv (st\<lparr>buffer := AList.update k v (buffer st)\<rparr>)"
  using assms by (auto simp: lru_inv_def AList.dom_update AList.distinct_update)

lemma lru_inv_append_and_flush:
  assumes "lru_inv st"
  shows "lru_inv (snd (append_and_flush tostr tid ts record r message c st))"
proof (cases "map_of (buffer st) tid")
  case None
  then show ?thesis using assms by (simp add: append_and_flush_def)
next
  case (Some e)
  then have k: "tid \<in> fst ` set (buffer st)"
    by (metis map_of_None_keys option.distinct(1))
  show ?thesis
    using Some assms lru_inv_update_present [OF assms k] lru_inv_delete_remove1 [OF assms, of tid]
    by (simp add: append_and_flush_def Let_def split: sum.splits)
qed

lemma lru_inv_aggregate:
  assumes "lru_inv st"
  shows "lru_inv (snd (aggregate tostr tid ts record r t st))"
proof -
  let ?st1 = "cleanup_buffer t st"
  have i1: "lru_inv ?st1" using assms by (rule lru_inv_cleanup_buffer)
  show ?thesis
  proof (cases "string_find tostr (lua_or (r ''message'') (LStr [])) completion_marker")
    case (Inl err)
    then show ?thesis using i1 by (simp add: aggregate_def Let_def)
  next
    case (Inr found)
    show ?thesis
    proof (cases "map_of (buffer ?st1) tid")
      case None
      let ?st2 = "if length (buffer_order ?st1) \<ge> MAX_BUFFER_SIZE then evict_oldest ?st1 else ?st1"
      have i2: "lru_inv ?st2" using i1 lru_inv_evict_oldest by auto
      have "tid \<notin> fst ` set (buffer ?st1)" using None by (simp add: map_of_None_keys)
      then have "tid \<notin> fst ` set (buffer ?st2)"
        by (auto simp: evict_oldest_def keys_delete split: list.splits)
      from lru_inv_insert_new [OF i2 this] show ?thesis
        using None Inr by (simp add: aggregate_def Let_def lru_inv_append_and_flush)
    next
      case (Some e)
      then have k: "tid \<in> fst ` set (buffer ?st1)"
        by (metis map_of_None_keys option.distinct(1))
      from lru_inv_touch [OF i1 k] show ?thesis
        using Some Inr by (simp add: aggregate_def Let_def lru_inv_append_and_flush)
    qed
  qed
qed

lemma lru_inv_combine_logs:
  "lru_inv st \<Longrightarrow> lru_inv (snd (combine_logs tostr st tag ts record t))"
  by (simp add: combine_logs_def lru_inv_aggregate split: lua_value.splits)

subsection \<open>Well-formed entries\<close>

lemma concat_arg_stringlike: "stringlike m \<Longrightarrow> concat_arg tostr m = Inr (render tostr m)"
  by (cases m) simp_all

lemma string_arg_stringlike: "stringlike m \<Longrightarrow> string_arg tostr m = Inr (render tostr m)"
  by (cases m) simp_all

lemma string_find_Inr:
  "string_find tostr m p = Inr found \<Longrightarrow> stringlike m \<and> found = str_find (render tostr m) p"
  by (cases m) (auto simp: string_find_def)

lemma table_concat_stringlike:
  "\<forall>m \<in> set ms. stringlike m \<Longrightarrow>
   table_concat tostr ms sep = Inr (join_with sep (map (render tostr) ms))"
  by (induction tostr ms sep rule: table_concat.induct) (simp_all add: concat_arg_stringlike)

lemma set_update_subset: "set (AList.update k v al) \<subseteq> insert (k, v) (set al)"
  by (induction al) auto

lemma set_delete_subset: "set (AList.delete k al) \<subseteq> set al"
  by (auto simp: AList.delete_eq)

lemma buffer_remove_stale_subset: "set (buffer (remove_stale ids st)) \<subseteq> set (buffer st)"
proof (induction ids arbitrary: st)
  case Nil
  show ?case by simp
next
  case (Cons k ids)
  have "set (buffer (remove_stale (k # ids) st)) \<subseteq> set (AList.delete k (buffer st))"
    using Cons.IH [of "st\<lparr>buffer := AList.delete k (buffer st),
           buffer_order := remove1 k (buffer_order st)\<rparr>"] by simp
  then show ?case using set_delete_subset [of k "buffer st"] by blast
qed

lemma buffer_evict_oldest_subset: "set (buffer (evict_oldest st)) \<subseteq> set (buffer st)"
  using set_delete_subset by (fastforce simp: evict_oldest_def split: list.splits)

lemma buffer_enforce_max_size_subset: "set (buffer (enforce_max_size st)) \<subseteq> set (buffer st)"
proof (induction st rule: enforce_max_size.induct)
  case (1 st)
  show ?case
  proof (cases "length (buffer_order st) > MAX_BUFFER_SIZE")
    case True
    then show ?thesis
      using 1 buffer_evict_oldest_subset [of st] by (auto simp: enforce_max_size.simps [of st])
  next
    case False
    then show ?thesis by (simp add: enforce_max_size.simps [of st])
  qed
qed

lemma buffer_cleanup_buffer_subset: "set (buffer (cleanup_buffer t st)) \<subseteq> set (buffer st)"
proof (cases "cleanup_counter st + 1 < CLEANUP_INTERVAL")
  case True
  then show ?thesis by (simp add: cleanup_buffer_def Let_def)
next
  case False
  let ?st2 = "st\<lparr>cleanup_counter := 0\<rparr>"
  have "set (buffer (cleanup_buffer t st))
          \<subseteq> set (buffer (remove_stale (stale_trace_ids t (buffer st)) ?st2))"
    using False buffer_enforce_max_size_subset by (simp add: cleanup_buffer_def Let_def)
  also have "\<dots> \<subseteq> set (buffer ?st2)" by (rule buffer_remove_stale_subset)
  finally show ?thesis by simp
qed

lemma entries_ok_subset:
  "entries_ok st \<Longrightarrow> set (buffer st') \<subseteq> set (buffer st) \<Longrightarrow> entries_ok st'"
  unfolding entries_ok_def by blast

lemma entries_ok_cleanup_buffer: "entries_ok st \<Longrightarrow> entries_ok (cleanup_buffer t st)"
  using buffer_cleanup_buffer_subset entries_ok_subset by blast

lemma entries_ok_alt: "entries_ok st \<longleftrightarrow> (\<forall>(k, e) \<in> set (buffer st). entry_ok k e)"
  by (simp add: entries_ok_def entry_ok_def)

lemma entries_ok_update:
  "entries_ok st \<Longrightarrow> entry_ok k e \<Longrightarrow> buffer st' = AList.update k e (buffer st) \<Longrightarrow> entries_ok st'"
  unfolding entries_ok_alt using set_update_subset [of k e "buffer st"] by auto

lemma entries_ok_delete:
  "entries_ok st \<Longrightarrow> buffer st' = AList.delete k (buffer st) \<Longrightarrow> entries_ok st'"
  unfolding entries_ok_alt using set_delete_subset [of k "buffer st"] by auto

lemma entry_ok_new_entry: "entry_ok tid (new_entry tid r t)"
  by (simp add: entry_ok_def new_entry_def)

lemma apply_record_simps [simp]:
  "traceId (apply_record m r e) = traceId e"
  "completed (apply_record m r e) = completed e"
  "last_seen (apply_record m r e) = last_seen e"
  "messages (apply_record m r e) = messages e @ [m]"
  by (simp_all add: apply_record_def Let_def)

lemma entry_ok_apply_record:
  "entry_ok k e \<Longrightarrow> stringlike m \<Longrightarrow> entry_ok k (apply_record m r e)"
  by (simp add: entry_ok_def)

lemma entry_ok_last_seen: "entry_ok k e \<Longrightarrow> entry_ok k (e\<lparr>last_seen := t\<rparr>)"
  by (simp add: entry_ok_def)

lemma entries_ok_lookup: "entries_ok st \<Longrightarrow> map_of (buffer st) k = Some e \<Longrightarrow> entry_ok k e"
  unfolding entries_ok_alt by (auto dest: map_of_SomeD)

text \<open>With well-formed entries and a message that passed string.find, the tail of
  combine_logs does not raise.\<close>

lemma append_and_flush_ok:
  assumes "entries_ok st" "map_of (buffer st) tid = Some e" "stringlike m"
  shows "append_and_flush tostr tid ts rcd r m c st =
     (if c then
        (Inr (1, ts, combined_record ((apply_record m r e)\<lparr>completed := True\<rparr>)
                (join_with [CHR 0x0A] (map (render tostr) (messages e @ [m])))),
         st\<lparr>buffer := AList.delete tid (buffer st),
            buffer_order := remove1 tid (buffer_order st)\<rparr>)
      else (Inr (- 1, ts, rcd), st\<lparr>buffer := AList.update tid (apply_record m r e) (buffer st)\<rparr>))"
proof -
  have "entry_ok tid e" using assms(1,2) by (rule entries_ok_lookup)
  then have "\<forall>x \<in> set (messages e @ [m]). stringlike x"
    using assms(3) by (auto simp: entry_ok_def)
  from table_concat_stringlike [OF this, of tostr "[CHR 0x0A]"] show ?thesis
    using assms(2) by (simp add: append_and_flush_def Let_def)
qed

lemma MAX_BUFFER_SIZE_pos: "0 < MAX_BUFFER_SIZE"
  by (simp add: MAX_BUFFER_SIZE_def)

lemma CLEANUP_INTERVAL_pos: "0 < CLEANUP_INTERVAL"
  by (simp add: CLEANUP_INTERVAL_def)

subsection \<open>The counter and the length of the order\<close>

lemma remove_stale_counter [simp]: "cleanup_counter (remove_stale ids st) = cleanup_counter st"
  by (induction ids arbitrary: st) simp_all

lemma evict_oldest_counter [simp]: "cleanup_counter (evict_oldest st) = cleanup_counter st"
  by (simp add: evict_oldest_def split: list.splits)

lemma enforce_max_size_counter [simp]:
  "cleanup_counter (enforce_max_size st) = cleanup_counter st"
proof (induction st rule: enforce_max_size.induct)
  case (1 st)
  then show ?case by (cases "length (buffer_order st) > MAX_BUFFER_SIZE")
      (simp_all add: enforce_max_size.simps [of st])
qed

lemma cleanup_buffer_counter:
  "cleanup_counter (cleanup_buffer t st) =
     (if cleanup_counter st + 1 < CLEANUP_INTERVAL then cleanup_counter st + 1 else 0)"
  by (simp add: cleanup_buffer_def Let_def)

lemma enforce_max_size_id:
  "length (buffer_order st) \<le> MAX_BUFFER_SIZE \<Longrightarrow> enforce_max_size st = st"
  by (simp add: enforce_max_size.simps [of st])

lemma length_order_remove_stale:
  "length (buffer_order (remove_stale ids st)) \<le> length (buffer_order st)"
proof (induction ids arbitrary: st)
  case Nil
  show ?case by simp
next
  case (Cons k ids)
  have "length (buffer_order (remove_stale (k # ids) st)) \<le> length (remove1 k (buffer_order st))"
    using Cons.IH [of "st\<lparr>buffer := AList.delete k (buffer st),
           buffer_order := remove1 k (buffer_order st)\<rparr>"] by simp
  also have "\<dots> \<le> length (buffer_order st)"
    by (simp add: length_remove1)
  finally show ?case .
qed

lemma length_order_cleanup_buffer:
  assumes "length (buffer_order st) \<le> MAX_BUFFER_SIZE"
  shows "length (buffer_order (cleanup_buffer t st)) \<le> length (buffer_order st)"
proof (cases "cleanup_counter st + 1 < CLEANUP_INTERVAL")
  case True
  then show ?thesis by (simp add: cleanup_buffer_def Let_def)
next
  case False
  let ?st3 = "remove_stale (stale_trace_ids t (buffer st)) (st\<lparr>cleanup_counter := 0\<rparr>)"
  have le: "length (buffer_order ?st3) \<le> length (buffer_order st)"
    using length_order_remove_stale [of "stale_trace_ids t (buffer st)" "st\<lparr>cleanup_counter := 0\<rparr>"]
    by simp
  then have "enforce_max_size ?st3 = ?st3"
    using assms by (intro enforce_max_size_id) simp
  then show ?thesis using False le by (simp add: cleanup_buffer_def Let_def)
qed

lemma bounded_cleanup_buffer: "bounded st \<Longrightarrow> bounded (cleanup_buffer t st)"
  using length_order_cleanup_buffer [of st t] CLEANUP_INTERVAL_pos
  by (auto simp: bounded_def cleanup_buffer_counter)

lemma inv_cleanup_buffer: "state_inv st \<Longrightarrow> state_inv (cleanup_buffer t st)"
  by (simp add: state_inv_def lru_inv_cleanup_buffer bounded_cleanup_buffer entries_ok_cleanup_buffer)

lemma aggregate_raises:
  "string_find tostr (lua_or (r ''message'') (LStr [])) completion_marker = Inl err \<Longrightarrow>
   aggregate tostr tid ts rcd r t st = (Inl err, cleanup_buffer t st)"
  by (simp add: aggregate_def Let_def)

lemma make_room_keys: "fst ` set (buffer (make_room st)) \<subseteq> fst ` set (buffer st)"
  using buffer_evict_oldest_subset [of st] by (auto simp: make_room_def)

lemma aggregate_new:
  assumes f: "string_find tostr (lua_or (r ''message'') (LStr [])) completion_marker = Inr found"
    and n: "map_of (buffer (cleanup_buffer t st)) tid = None"
  shows "aggregate tostr tid ts rcd r t st =
     (let st2 = make_room (cleanup_buffer t st);
          m = lua_or (r ''message'') (LStr []);
          e1 = apply_record m r (new_entry tid r t)
      in if found \<noteq> None
         then (Inr (1, ts, combined_record (e1\<lparr>completed := True\<rparr>) (render tostr m)),
               st2\<lparr>buffer_order := remove1 tid (buffer_order st2 @ [tid])\<rparr>)
         else (Inr (- 1, ts, rcd),
               st2\<lparr>buffer := AList.update tid e1 (buffer st2),
                   buffer_order := buffer_order st2 @ [tid]\<rparr>))"
proof -
  let ?st2 = "make_room (cleanup_buffer t st)"
  let ?m = "lua_or (r ''message'') (LStr [])"
  let ?st3 = "?st2\<lparr>buffer := AList.update tid (new_entry tid r t) (buffer ?st2),
                    buffer_order := buffer_order ?st2 @ [tid]\<rparr>"
  have sl: "stringlike ?m" using string_find_Inr [OF f] by simp
  have notin: "tid \<notin> fst ` set (buffer ?st2)"
    using n make_room_keys [of "cleanup_buffer t st"] by (auto simp: map_of_None_keys)
  have c: "table_concat tostr [?m] [CHR 0x0A] = Inr (render tostr ?m)"
    using table_concat_stringlike [of "[?m]" tostr] sl by simp
  have "aggregate tostr tid ts rcd r t st =
          append_and_flush tostr tid ts rcd r ?m (found \<noteq> None) ?st3"
    using f n by (simp add: aggregate_def Let_def make_room_def)
  also have "\<dots> = (if found \<noteq> None
         then (Inr (1, ts, combined_record ((apply_record ?m r (new_entry tid r t))\<lparr>completed := True\<rparr>)
                    (render tostr ?m)),
               ?st3\<lparr>buffer := AList.delete tid (buffer ?st3),
                    buffer_order := remove1 tid (buffer_order ?st3)\<rparr>)
         else (Inr (- 1, ts, rcd),
               ?st3\<lparr>buffer := AList.update tid (apply_record ?m r (new_entry tid r t)) (buffer ?st3)\<rparr>))"
    using c by (simp add: append_and_flush_def Let_def AList.update_conv' new_entry_def)
  finally show ?thesis
    using notin by (simp add: Let_def AList.delete_update_same)
qed

lemma aggregate_existing:
  assumes ok: "entries_ok st"
    and f: "string_find tostr (lua_or (r ''message'') (LStr [])) completion_marker = Inr found"
    and s: "map_of (buffer (cleanup_buffer t st)) tid = Some e"
  shows "aggregate tostr tid ts rcd r t st =
     (let st1 = cleanup_buffer t st;
          m = lua_or (r ''message'') (LStr []);
          e1 = apply_record m r (e\<lparr>last_seen := t\<rparr>)
      in if found \<noteq> None
         then (Inr (1, ts, combined_record (e1\<lparr>completed := True\<rparr>)
                      (join_with [CHR 0x0A] (map (render tostr) (messages e @ [m])))),
               st1\<lparr>buffer := AList.delete tid (buffer st1),
                   buffer_order := remove1 tid (update_lru_order tid (buffer_order st1))\<rparr>)
         else (Inr (- 1, ts, rcd),
               st1\<lparr>buffer := AList.update tid e1 (buffer st1),
                   buffer_order := update_lru_order tid (buffer_order st1)\<rparr>))"
proof -
  let ?st1 = "cleanup_buffer t st"
  let ?m = "lua_or (r ''message'') (LStr [])"
  let ?e' = "e\<lparr>last_seen := t\<rparr>"
  let ?st2 = "?st1\<lparr>buffer := AList.update tid ?e' (buffer ?st1),
                    buffer_order := update_lru_order tid (buffer_order ?st1)\<rparr>"
  have sl: "stringlike ?m" using string_find_Inr [OF f] by simp
  have ok1: "entries_ok ?st1" using ok by (rule entries_ok_cleanup_buffer)
  have eok: "entry_ok tid e" using ok1 s by (rule entries_ok_lookup)
  then have nc: "\<not> completed e" by (simp add: entry_ok_def)
  have ok2: "entries_ok ?st2"
    using entries_ok_update [OF ok1 entry_ok_last_seen [OF eok, of t], of ?st2] by simp
  have l2: "map_of (buffer ?st2) tid = Some ?e'" by (simp add: AList.update_conv')
  have "aggregate tostr tid ts rcd r t st =
          append_and_flush tostr tid ts rcd r ?m (found \<noteq> None) ?st2"
    using f s nc by (simp add: aggregate_def Let_def)
  then show ?thesis
    unfolding append_and_flush_ok [OF ok2 l2 sl]
    by (simp add: Let_def AList.delete_update_same)
qed

lemma append_and_flush_counter [simp]:
  "cleanup_counter (snd (append_and_flush tostr tid ts rcd r m c st)) = cleanup_counter st"
  by (simp add: append_and_flush_def Let_def split: option.splits sum.splits)

lemma aggregate_counter:
  "cleanup_counter (snd (aggregate tostr tid ts rcd r t st)) =
     cleanup_counter (cleanup_buffer t st)"
  by (simp add: aggregate_def Let_def split: option.splits sum.splits)

lemma length_make_room:
  "length (buffer_order st) \<le> MAX_BUFFER_SIZE \<Longrightarrow>
   length (buffer_order (make_room st)) < MAX_BUFFER_SIZE"
  using MAX_BUFFER_SIZE_pos
  by (auto simp: make_room_def evict_oldest_def split: list.splits)

lemma lru_inv_make_room: "lru_inv st \<Longrightarrow> lru_inv (make_room st)"
  by (simp add: make_room_def lru_inv_evict_oldest)

lemma entries_ok_make_room: "entries_ok st \<Longrightarrow> entries_ok (make_room st)"
  using buffer_evict_oldest_subset [of st] entries_ok_subset [of st "evict_oldest st"]
  by (simp add: make_room_def)

lemma make_room_counter [simp]: "cleanup_counter (make_room st) = cleanup_counter st"
  by (simp add: make_room_def)

lemma lru_inv_notin_order:
  "lru_inv st \<Longrightarrow> map_of (buffer st) k = None \<Longrightarrow> k \<notin> set (buffer_order st)"
  by (simp add: lru_inv_def map_of_None_keys)

lemma lru_inv_in_order:
  "lru_inv st \<Longrightarrow> map_of (buffer st) k = Some e \<Longrightarrow> k \<in> set (buffer_order st)"
  by (metis lru_inv_def map_of_None_keys option.distinct(1))

lemma length_update_lru_order:
  "k \<in> set order \<Longrightarrow> length (update_lru_order k order) = length order"
  using length_pos_if_in_set [of k order] by (simp add: update_lru_order_def length_remove1)

lemma inv_aggregate:
  assumes "state_inv st"
  shows "state_inv (snd (aggregate tostr tid ts rcd r t st))"
proof -
  let ?st1 = "cleanup_buffer t st"
  let ?m = "lua_or (r ''message'') (LStr [])"
  let ?res = "snd (aggregate tostr tid ts rcd r t st)"
  have i1: "state_inv ?st1" using assms by (rule inv_cleanup_buffer)
  have lru: "lru_inv ?res" using assms by (simp add: state_inv_def lru_inv_aggregate)
  have cnt: "cleanup_counter ?res < CLEANUP_INTERVAL"
    using i1 by (simp add: aggregate_counter state_inv_def bounded_def)
  have "length (buffer_order ?res) \<le> MAX_BUFFER_SIZE \<and> entries_ok ?res"
  proof (cases "string_find tostr ?m completion_marker")
    case (Inl err)
    then show ?thesis using i1 by (simp add: aggregate_raises state_inv_def bounded_def)
  next
    case (Inr found)
    then have sl: "stringlike ?m" using string_find_Inr by blast
    show ?thesis
    proof (cases "map_of (buffer ?st1) tid")
      case None
      let ?st2 = "make_room ?st1"
      have len: "length (buffer_order ?st2) < MAX_BUFFER_SIZE"
        using i1 by (intro length_make_room) (simp add: state_inv_def bounded_def)
      have ok2: "entries_ok ?st2" using i1 by (simp add: state_inv_def entries_ok_make_room)
      have e1: "entry_ok tid (apply_record ?m r (new_entry tid r t))"
        using entry_ok_new_entry sl by (rule entry_ok_apply_record)
      have len': "length (remove1 tid (buffer_order ?st2 @ [tid])) \<le> MAX_BUFFER_SIZE"
        using len by (simp add: length_remove1)
      show ?thesis
        unfolding aggregate_new [where r = r and ts = ts and rcd = rcd, OF Inr None]
        using len len' entries_ok_update [OF ok2 e1] entries_ok_subset [OF ok2]
        by (simp add: Let_def)
    next
      case (Some e)
      have ok: "entries_ok st" using assms by (simp add: state_inv_def)
      have ok1: "entries_ok ?st1" using i1 by (simp add: state_inv_def)
      have eok: "entry_ok tid e" using ok1 Some by (rule entries_ok_lookup)
      have e1: "entry_ok tid (apply_record ?m r (e\<lparr>last_seen := t\<rparr>))"
        using entry_ok_last_seen [OF eok] sl by (rule entry_ok_apply_record)
      have mem: "tid \<in> set (buffer_order ?st1)"
        using i1 Some by (simp add: state_inv_def lru_inv_in_order)
      have len: "length (update_lru_order tid (buffer_order ?st1)) \<le> MAX_BUFFER_SIZE"
        using i1 by (simp add: length_update_lru_order [OF mem] state_inv_def bounded_def)
      then have len': "length (remove1 tid (update_lru_order tid (buffer_order ?st1))) \<le> MAX_BUFFER_SIZE"
        by (auto simp: length_remove1)
      show ?thesis
        unfolding aggregate_existing [where r = r and ts = ts and rcd = rcd, OF ok Inr Some]
        using len len' entries_ok_update [OF ok1 e1] entries_ok_delete [OF ok1]
        by (simp add: Let_def)
    qed
  qed
  with lru cnt show ?thesis by (simp add: state_inv_def bounded_def)
qed

lemma combine_logs_valid:
  "rcd = LTable r \<Longrightarrow> r ''traceId'' = LStr tid \<Longrightarrow> tid \<noteq> [] \<Longrightarrow>
   combine_logs tostr st tag ts rcd t = aggregate tostr tid ts rcd r t st"
  by (simp add: combine_logs_def)

lemma combine_logs_invalid:
  "\<not> valid_key (trace_id_of rcd) \<Longrightarrow>
   combine_logs tostr st tag ts rcd t = (Inr (1, ts, rcd), st)"
  by (cases rcd; cases "trace_id_of rcd") (auto simp: combine_logs_def)

lemma valid_keyE:
  assumes "valid_key (trace_id_of rcd)"
  obtains r tid where "rcd = LTable r" "r ''traceId'' = LStr tid" "tid \<noteq> []"
  using assms by (cases rcd; cases "trace_id_of rcd") auto

lemma inv_combine_logs: "state_inv st \<Longrightarrow> state_inv (snd (combine_logs tostr st tag ts rcd t))"
proof (cases "valid_key (trace_id_of rcd)")
  case True
  assume "state_inv st"
  with True show ?thesis
    by (elim valid_keyE) (simp add: combine_logs_valid inv_aggregate)
next
  case False
  assume "state_inv st"
  with False show ?thesis by (simp add: combine_logs_invalid)
qed

lemma inv_init_state: "state_inv init_state"
  by (simp add: state_inv_def lru_inv_def bounded_def entries_ok_def init_state_def
      CLEANUP_INTERVAL_def)

lemma reachable_inv: "reachable tostr st \<Longrightarrow> state_inv st"
  by (induction rule: reachable.induct) (simp_all add: inv_init_state inv_combine_logs)

subsection \<open>The sweep\<close>

lemma buffer_remove_stale:
  "buffer (remove_stale ids st) = filter (\<lambda>(k, e). k \<notin> set ids) (buffer st)"
proof (induction ids arbitrary: st)
  case Nil
  show ?case by simp
next
  case (Cons k ids)
  have "filter (\<lambda>(k', e). k' \<notin> set ids) (AList.delete k (buffer st)) =
        filter (\<lambda>(k', e). k' \<notin> set (k # ids)) (buffer st)"
    by (auto simp: AList.delete_eq intro: filter_cong)
  then show ?case using Cons.IH by simp
qed

lemma remove1_filter: "distinct xs \<Longrightarrow> remove1 x xs = filter (\<lambda>y. y \<noteq> x) xs"
proof (induction xs)
  case Nil
  show ?case by simp
next
  case (Cons y xs)
  have "filter (\<lambda>z. z \<noteq> x) xs = xs" if "x \<notin> set xs"
    using that by (induction xs) auto
  with Cons show ?case by auto
qed

lemma order_remove_stale:
  "distinct (buffer_order st) \<Longrightarrow>
   buffer_order (remove_stale ids st) = filter (\<lambda>k. k \<notin> set ids) (buffer_order st)"
proof (induction ids arbitrary: st)
  case Nil
  show ?case by simp
next
  case (Cons k ids)
  have "filter (\<lambda>k'. k' \<notin> set ids) (remove1 k (buffer_order st)) =
        filter (\<lambda>k'. k' \<notin> set (k # ids)) (buffer_order st)"
    using Cons.prems by (auto simp: remove1_filter intro: filter_cong)
  then show ?case using Cons.IH [of "st\<lparr>buffer := AList.delete k (buffer st),
           buffer_order := remove1 k (buffer_order st)\<rparr>"] Cons.prems
    by simp
qed

text \<open>Lua leaves open the order in which \<^verbatim>\<open>pairs\<close> visits the buffer. The removal loop
  gives the same state for every order of the stale ids.\<close>

lemma remove_stale_more: "state.more (remove_stale ids st) = state.more st"
  by (induction ids arbitrary: st) simp_all

lemma remove_stale_any_order:
  assumes "distinct (buffer_order st)" and "set ids = set ids'"
  shows "remove_stale ids st = remove_stale ids' st"
proof (rule state.equality)
  show "buffer (remove_stale ids st) = buffer (remove_stale ids' st)"
    using assms(2) by (simp add: buffer_remove_stale)
  show "buffer_order (remove_stale ids st) = buffer_order (remove_stale ids' st)"
    using assms by (simp add: order_remove_stale)
  show "cleanup_counter (remove_stale ids st) = cleanup_counter (remove_stale ids' st)"
    by simp
  show "state.more (remove_stale ids st) = state.more (remove_stale ids' st)"
    by (simp add: remove_stale_more)
qed

lemma set_stale_trace_ids:
  "set (stale_trace_ids t buf) = {k. \<exists>e. (k, e) \<in> set buf \<and> stale t e}"
  by (auto simp: stale_trace_ids_def stale_def) force

lemma mem_stale_trace_ids:
  "distinct (map fst buf) \<Longrightarrow>
   k \<in> set (stale_trace_ids t buf) \<longleftrightarrow> (\<exists>e. map_of buf k = Some e \<and> stale t e)"
  by (auto simp: set_stale_trace_ids dest: map_of_SomeD)

text \<open>A call of cleanup_buffer that sweeps (the counter reaches the interval), in a state
  where the order lists each key of the buffer once and holds at most the maximum.\<close>

lemma cleanup_buffer_sweep:
  assumes "lru_inv st" "length (buffer_order st) \<le> MAX_BUFFER_SIZE"
    and "\<not> cleanup_counter st + 1 < CLEANUP_INTERVAL"
  shows "cleanup_buffer t st =
     st\<lparr>cleanup_counter := 0,
        buffer := filter (\<lambda>(k, e). \<not> stale t e) (buffer st),
        buffer_order := filter (\<lambda>k. \<forall>e. map_of (buffer st) k = Some e \<longrightarrow> \<not> stale t e) (buffer_order st)\<rparr>"
proof -
  let ?ids = "stale_trace_ids t (buffer st)"
  let ?st2 = "st\<lparr>cleanup_counter := 0\<rparr>"
  let ?st3 = "remove_stale ?ids ?st2"
  have d: "distinct (map fst (buffer st))" "distinct (buffer_order st)"
    using assms(1) by (simp_all add: lru_inv_def)
  have b: "buffer ?st3 = filter (\<lambda>(k, e). \<not> stale t e) (buffer st)"
  proof -
    have "k \<notin> set ?ids \<longleftrightarrow> \<not> stale t e" if "(k, e) \<in> set (buffer st)" for k e
      using map_of_is_SomeI [OF d(1) that] by (simp add: mem_stale_trace_ids [OF d(1)])
    then show ?thesis
      unfolding buffer_remove_stale by (auto intro!: filter_cong)
  qed
  have o: "buffer_order ?st3 =
      filter (\<lambda>k. \<forall>e. map_of (buffer st) k = Some e \<longrightarrow> \<not> stale t e) (buffer_order st)"
    using order_remove_stale [of ?st2 ?ids] d
    by (auto simp: mem_stale_trace_ids intro!: filter_cong)
  have c: "cleanup_counter ?st3 = 0" by simp
  have "length (buffer_order ?st3) \<le> MAX_BUFFER_SIZE"
    using length_order_remove_stale [of ?ids ?st2] assms(2) by simp
  then have "enforce_max_size ?st3 = ?st3" by (rule enforce_max_size_id)
  then have "cleanup_buffer t st = ?st3"
    using assms(3) by (simp add: cleanup_buffer_def Let_def)
  moreover have "?st3 = st\<lparr>cleanup_counter := 0, buffer := buffer ?st3, buffer_order := buffer_order ?st3\<rparr>"
  proof -
    have "state.more ?st3 = state.more st"
      by (induction ?ids arbitrary: st) simp_all
    then show ?thesis using c by (cases ?st3; cases st) simp
  qed
  ultimately show ?thesis using b o by simp
qed

lemma cleanup_buffer_no_sweep:
  "cleanup_counter st + 1 < CLEANUP_INTERVAL \<Longrightarrow>
   cleanup_buffer t st = st\<lparr>cleanup_counter := cleanup_counter st + 1\<rparr>"
  by (simp add: cleanup_buffer_def Let_def)

lemma map_of_filter_snd:
  "distinct (map fst al) \<Longrightarrow>
   map_of (filter (\<lambda>(k, e). P e) al) k =
     (case map_of al k of None \<Rightarrow> None | Some e \<Rightarrow> if P e then Some e else None)"
proof (induction al)
  case Nil
  show ?case by simp
next
  case (Cons p al)
  obtain k' e' where p: "p = (k', e')" by (cases p)
  have "k' \<notin> fst ` set al" using Cons.prems p by simp
  then have n: "map_of al k' = None" by (simp add: map_of_None_keys)
  show ?case using Cons p n by (auto split: option.splits)
qed

lemma cleanup_buffer_lookup:
  assumes "lru_inv st" "length (buffer_order st) \<le> MAX_BUFFER_SIZE"
  shows "map_of (buffer (cleanup_buffer t st)) k =
     (case map_of (buffer st) k of
        None \<Rightarrow> None
      | Some e \<Rightarrow> if \<not> cleanup_counter st + 1 < CLEANUP_INTERVAL \<and> stale t e then None else Some e)"
proof (cases "cleanup_counter st + 1 < CLEANUP_INTERVAL")
  case True
  then show ?thesis by (simp add: cleanup_buffer_no_sweep split: option.splits)
next
  case False
  have d: "distinct (map fst (buffer st))" using assms(1) by (simp add: lru_inv_def)
  show ?thesis
    unfolding cleanup_buffer_sweep [OF assms False]
    using False map_of_filter_snd [OF d, of "\<lambda>e. \<not> stale t e" k]
    by (simp split: option.splits)
qed

lemma tostring_int_200: "tostring_int 200 = ''200''"
  by (simp add: tostring_int_def decimal.simps digit_of_def)

lemma append_and_flush_other:
  "k \<noteq> tid \<Longrightarrow>
   map_of (buffer (snd (append_and_flush tostr tid ts rcd r m c st))) k = map_of (buffer st) k"
  by (simp add: append_and_flush_def Let_def AList.update_conv' AList.delete_conv'
      split: option.splits sum.splits)

lemma map_of_evict_oldest:
  "map_of (buffer (evict_oldest st)) k = None \<or>
   map_of (buffer (evict_oldest st)) k = map_of (buffer st) k"
  by (simp add: evict_oldest_def AList.delete_conv' split: list.splits)

lemma aggregate_other:
  assumes "k \<noteq> tid"
  shows "map_of (buffer (snd (aggregate tostr tid ts rcd r t st))) k = None \<or>
         map_of (buffer (snd (aggregate tostr tid ts rcd r t st))) k =
           map_of (buffer (cleanup_buffer t st)) k"
  using assms map_of_evict_oldest [of "cleanup_buffer t st" k]
  by (auto simp: aggregate_def Let_def append_and_flush_other AList.update_conv'
      split: option.splits sum.splits)

lemmas eval_defs =
  combine_logs_def aggregate_def append_and_flush_def cleanup_buffer_def Let_def
  string_find_def lua_or_def completion_marker_def new_entry_def apply_record_def
  combined_record_def init_state_def empty_table_def update_lru_order_def
  MAX_BUFFER_SIZE_def CLEANUP_INTERVAL_def STALE_TIMEOUT_SEC_def evict_oldest_def

subsection \<open>Substring search and the fields of a record\<close>

lemma starts_with_iff: "starts_with s p \<longleftrightarrow> (\<exists>b. s = p @ b)"
  by (induction s p rule: starts_with.induct) auto

lemma str_find_iff: "str_find s p \<noteq> None \<longleftrightarrow> (\<exists>a b. s = a @ p @ b)"
proof (induction s)
  case Nil
  show ?case by auto
next
  case (Cons c s)
  have "(\<exists>a b. c # s = a @ p @ b) \<longleftrightarrow> (\<exists>b. c # s = p @ b) \<or> (\<exists>a b. s = a @ p @ b)"
  proof
    assume "\<exists>a b. c # s = a @ p @ b"
    then obtain a b where ab: "c # s = a @ p @ b" by blast
    show "(\<exists>b. c # s = p @ b) \<or> (\<exists>a b. s = a @ p @ b)"
    proof (cases a)
      case Nil
      with ab show ?thesis by auto
    next
      case (Cons x a')
      with ab have "s = a' @ p @ b" by simp
      then show ?thesis by blast
    qed
  next
    assume "(\<exists>b. c # s = p @ b) \<or> (\<exists>a b. s = a @ p @ b)"
    then show "\<exists>a b. c # s = a @ p @ b"
    proof
      assume "\<exists>b. c # s = p @ b"
      then obtain b where "c # s = [] @ p @ b" by auto
      then show ?thesis by blast
    next
      assume "\<exists>a b. s = a @ p @ b"
      then obtain a b where "c # s = (c # a) @ p @ b" by auto
      then show ?thesis by blast
    qed
  qed
  then show ?case using Cons.IH by (auto simp: starts_with_iff)
qed

lemma apply_record_fields:
  "method_field (apply_record m r e) = (if r ''method'' = LNil then method_field e else r ''method'')"
  "path (apply_record m r e) = (if r ''path'' = LNil then path e else r ''path'')"
  "status (apply_record m r e) = (if r ''status'' = LNil then status e else r ''status'')"
  "latencyMs (apply_record m r e) = (if r ''latencyMs'' = LNil then latencyMs e else r ''latencyMs'')"
  by (simp_all add: apply_record_def Let_def)

lemma new_entry_fields:
  "method_field (apply_record m r (new_entry tid r t)) = r ''method''"
  "path (apply_record m r (new_entry tid r t)) = r ''path''"
  "status (apply_record m r (new_entry tid r t)) = r ''status''"
  "latencyMs (apply_record m r (new_entry tid r t)) = r ''latencyMs''"
  by (simp_all add: apply_record_fields new_entry_def lua_or_def)

lemma combined_record_table: "combined_record e joined = LTable (combined_table e joined)"
  by (simp add: combined_record_def combined_table_def empty_table_def fun_eq_iff)

lemma combined_table_fields:
  "combined_table e joined ''traceId'' = LStr (traceId e)"
  "combined_table e joined ''message'' = LStr joined"
  "combined_table e joined ''method'' = method_field e"
  "combined_table e joined ''path'' = path e"
  "combined_table e joined ''status'' = status e"
  "combined_table e joined ''latencyMs'' = latencyMs e"
  by (simp_all add: combined_table_def)

subsection \<open>Runs of calls\<close>

lemma run_logs_step:
  "run_logs tostr st ((tag, ts, rcd, t) # cs) =
     (fst (combine_logs tostr st tag ts rcd t) #
        fst (run_logs tostr (snd (combine_logs tostr st tag ts rcd t)) cs),
      snd (run_logs tostr (snd (combine_logs tostr st tag ts rcd t)) cs))"
  by (simp add: run_logs.simps Let_def split_beta)

lemma run_logs_append:
  "run_logs tostr st (cs @ ds) =
     (fst (run_logs tostr st cs) @ fst (run_logs tostr (snd (run_logs tostr st cs)) ds),
      snd (run_logs tostr (snd (run_logs tostr st cs)) ds))"
proof (induction cs arbitrary: st)
  case Nil
  show ?case by simp
next
  case (Cons c cs)
  obtain tag ts rcd t where c: "c = (tag, ts, rcd, t)" by (cases c)
  show ?case unfolding c append_Cons run_logs_step by (simp add: Cons.IH)
qed

lemma state_inv_run_logs: "state_inv st \<Longrightarrow> state_inv (snd (run_logs tostr st cs))"
proof (induction cs arbitrary: st)
  case Nil
  then show ?case by simp
next
  case (Cons c cs)
  obtain tag ts rcd t where c: "c = (tag, ts, rcd, t)" by (cases c)
  show ?case
    using Cons.IH [OF inv_combine_logs [OF Cons.prems, of tostr tag ts rcd t]]
    unfolding c run_logs_step by simp
qed

text \<open>A group younger than the timeout survives the cleanup of a call.\<close>

lemma cleanup_buffer_keeps:
  assumes "state_inv st" "map_of (buffer st) k = Some e" "t - last_seen e \<le> STALE_TIMEOUT_SEC"
  shows "map_of (buffer (cleanup_buffer t st)) k = Some e"
  using assms by (simp add: cleanup_buffer_lookup state_inv_def bounded_def stale_def)

text \<open>One record that does not complete, for a live group.\<close>

lemma combine_logs_touch:
  assumes i: "state_inv st" and l: "map_of (buffer st) tid = Some e"
    and g: "t - last_seen e \<le> STALE_TIMEOUT_SEC"
    and k: "r ''traceId'' = LStr tid" "tid \<noteq> []"
    and m: "stringlike (message_of r)" and nc: "\<not> is_completion tostr r"
  shows "fst (combine_logs tostr st tag ts (LTable r) t) = Inr (- 1, ts, LTable r)"
    and "map_of (buffer (snd (combine_logs tostr st tag ts (LTable r) t))) tid =
           Some (apply_record (message_of r) r (e\<lparr>last_seen := t\<rparr>))"
proof -
  have ok: "entries_ok st" using i by (simp add: state_inv_def)
  have f: "string_find tostr (lua_or (r ''message'') (LStr [])) completion_marker =
             Inr (str_find (render tostr (message_of r)) completion_marker)"
    using string_arg_stringlike [OF m, of tostr] by (simp add: string_find_def message_of_def)
  have n: "str_find (render tostr (message_of r)) completion_marker = None"
    using nc str_find_iff [of "render tostr (message_of r)" completion_marker]
    by (simp add: is_completion_def)
  have s: "map_of (buffer (cleanup_buffer t st)) tid = Some e"
    using i l g by (rule cleanup_buffer_keeps)
  have cl: "combine_logs tostr st tag ts (LTable r) t = aggregate tostr tid ts (LTable r) r t st"
    using k by (simp add: combine_logs_valid)
  show "fst (combine_logs tostr st tag ts (LTable r) t) = Inr (- 1, ts, LTable r)"
    unfolding cl aggregate_existing [where r = r and ts = ts and rcd = "LTable r", OF ok f s]
    using n by (simp add: Let_def)
  show "map_of (buffer (snd (combine_logs tostr st tag ts (LTable r) t))) tid =
           Some (apply_record (message_of r) r (e\<lparr>last_seen := t\<rparr>))"
    unfolding cl aggregate_existing [where r = r and ts = ts and rcd = "LTable r", OF ok f s]
    using n by (simp add: Let_def AList.update_conv' message_of_def)
qed

lemma apply_all_last_seen:
  "last_seen (apply_all e cs) = last (last_seen e # map call_time cs)"
  by (induction cs arbitrary: e) simp_all

text \<open>A run of records of one trace, none completing, for a live group.\<close>

lemma run_logs_touch:
  assumes "state_inv st" and "map_of (buffer st) tid = Some e" and "tid \<noteq> []"
    and "\<forall>c \<in> set cs. call_table c ''traceId'' = LStr tid \<and> stringlike (message_of (call_table c))
           \<and> \<not> is_completion tostr (call_table c)"
    and "gaps_ok (last_seen e # map call_time cs)"
  shows "fst (run_logs tostr st (map to_call cs)) = map suppressed cs \<and>
         map_of (buffer (snd (run_logs tostr st (map to_call cs)))) tid = Some (apply_all e cs)"
  using assms
proof (induction cs arbitrary: st e)
  case Nil
  then show ?case by simp
next
  case (Cons c cs)
  obtain tag ts r t where c: "c = (tag, ts, r, t)" by (cases c)
  let ?st1 = "snd (combine_logs tostr st tag ts (LTable r) t)"
  let ?e1 = "apply_record (message_of r) r (e\<lparr>last_seen := t\<rparr>)"
  have ct: "call_time c = t" "call_table c = r" "to_call c = (tag, ts, LTable r, t)"
    "suppressed c = Inr (- 1, ts, LTable r)"
    using c by (simp_all add: call_time_def call_table_def to_call_def suppressed_def)
  have g: "t - last_seen e \<le> STALE_TIMEOUT_SEC" and gs: "gaps_ok (t # map call_time cs)"
    using Cons.prems(5) ct by simp_all
  have k: "r ''traceId'' = LStr tid" and m: "stringlike (message_of r)"
    and nc: "\<not> is_completion tostr r"
    using Cons.prems(4) ct by simp_all
  note step = combine_logs_touch [OF Cons.prems(1,2) g k Cons.prems(3) m nc, of tag ts]
  have i1: "state_inv ?st1" using Cons.prems(1) by (rule inv_combine_logs)
  have rest: "\<forall>c \<in> set cs. call_table c ''traceId'' = LStr tid \<and> stringlike (message_of (call_table c))
           \<and> \<not> is_completion tostr (call_table c)"
    using Cons.prems(4) by simp
  have gs': "gaps_ok (last_seen ?e1 # map call_time cs)" using gs by simp
  note ih = Cons.IH [OF i1 step(2) Cons.prems(3) rest gs']
  show ?case
    using ih step(1) by (simp add: ct run_logs_step)
qed

lemma cleanup_buffer_absent:
  "map_of (buffer st) k = None \<Longrightarrow> map_of (buffer (cleanup_buffer t st)) k = None"
  using buffer_cleanup_buffer_subset [of t st] by (auto simp: map_of_None_keys)

text \<open>The first record of a trace, not completing: the group is created.\<close>

lemma combine_logs_create:
  assumes l: "map_of (buffer st) tid = None"
    and k: "r ''traceId'' = LStr tid" "tid \<noteq> []"
    and m: "stringlike (message_of r)" and nc: "\<not> is_completion tostr r"
  shows "fst (combine_logs tostr st tag ts (LTable r) t) = Inr (- 1, ts, LTable r)"
    and "map_of (buffer (snd (combine_logs tostr st tag ts (LTable r) t))) tid =
           Some (apply_record (message_of r) r (new_entry tid r t))"
proof -
  have f: "string_find tostr (lua_or (r ''message'') (LStr [])) completion_marker =
             Inr (str_find (render tostr (message_of r)) completion_marker)"
    using string_arg_stringlike [OF m, of tostr] by (simp add: string_find_def message_of_def)
  have n: "str_find (render tostr (message_of r)) completion_marker = None"
    using nc str_find_iff [of "render tostr (message_of r)" completion_marker]
    by (simp add: is_completion_def)
  have s: "map_of (buffer (cleanup_buffer t st)) tid = None"
    using l by (rule cleanup_buffer_absent)
  have cl: "combine_logs tostr st tag ts (LTable r) t = aggregate tostr tid ts (LTable r) r t st"
    using k by (simp add: combine_logs_valid)
  show "fst (combine_logs tostr st tag ts (LTable r) t) = Inr (- 1, ts, LTable r)"
    unfolding cl aggregate_new [where r = r and ts = ts and rcd = "LTable r", OF f s]
    using n by (simp add: Let_def)
  show "map_of (buffer (snd (combine_logs tostr st tag ts (LTable r) t))) tid =
           Some (apply_record (message_of r) r (new_entry tid r t))"
    unfolding cl aggregate_new [where r = r and ts = ts and rcd = "LTable r", OF f s]
    using n by (simp add: Let_def AList.update_conv' message_of_def)
qed

text \<open>A completing record for a live group: the group is flushed.\<close>

lemma combine_logs_flush:
  assumes i: "state_inv st" and l: "map_of (buffer st) tid = Some e"
    and g: "t - last_seen e \<le> STALE_TIMEOUT_SEC"
    and k: "r ''traceId'' = LStr tid" "tid \<noteq> []"
    and m: "stringlike (message_of r)" and c: "is_completion tostr r"
  shows "fst (combine_logs tostr st tag ts (LTable r) t) =
           Inr (1, ts, combined_record ((apply_record (message_of r) r (e\<lparr>last_seen := t\<rparr>))\<lparr>completed := True\<rparr>)
                 (join_with newline (map (render tostr) (messages e @ [message_of r]))))"
    and "map_of (buffer (snd (combine_logs tostr st tag ts (LTable r) t))) tid = None"
proof -
  have ok: "entries_ok st" using i by (simp add: state_inv_def)
  have f: "string_find tostr (lua_or (r ''message'') (LStr [])) completion_marker =
             Inr (str_find (render tostr (message_of r)) completion_marker)"
    using string_arg_stringlike [OF m, of tostr] by (simp add: string_find_def message_of_def)
  have n: "str_find (render tostr (message_of r)) completion_marker \<noteq> None"
    using c str_find_iff [of "render tostr (message_of r)" completion_marker]
    by (simp add: is_completion_def)
  have s: "map_of (buffer (cleanup_buffer t st)) tid = Some e"
    using i l g by (rule cleanup_buffer_keeps)
  have cl: "combine_logs tostr st tag ts (LTable r) t = aggregate tostr tid ts (LTable r) r t st"
    using k by (simp add: combine_logs_valid)
  show "fst (combine_logs tostr st tag ts (LTable r) t) =
           Inr (1, ts, combined_record ((apply_record (message_of r) r (e\<lparr>last_seen := t\<rparr>))\<lparr>completed := True\<rparr>)
                 (join_with newline (map (render tostr) (messages e @ [message_of r]))))"
    unfolding cl aggregate_existing [where r = r and ts = ts and rcd = "LTable r", OF ok f s]
    using n by (simp add: Let_def message_of_def newline_def)
  show "map_of (buffer (snd (combine_logs tostr st tag ts (LTable r) t))) tid = None"
    unfolding cl aggregate_existing [where r = r and ts = ts and rcd = "LTable r", OF ok f s]
    using n by (simp add: Let_def AList.delete_conv')
qed

text \<open>A completing record for a trace with no live group: it is emitted on its own.\<close>

lemma combine_logs_flush_new:
  assumes i: "state_inv st" and l: "map_of (buffer (cleanup_buffer t st)) tid = None"
    and k: "r ''traceId'' = LStr tid" "tid \<noteq> []"
    and m: "stringlike (message_of r)" and c: "is_completion tostr r"
  shows "fst (combine_logs tostr st tag ts (LTable r) t) =
           Inr (1, ts, combined_record ((apply_record (message_of r) r (new_entry tid r t))\<lparr>completed := True\<rparr>)
                 (render tostr (message_of r)))"
    and "map_of (buffer (snd (combine_logs tostr st tag ts (LTable r) t))) tid = None"
proof -
  have f: "string_find tostr (lua_or (r ''message'') (LStr [])) completion_marker =
             Inr (str_find (render tostr (message_of r)) completion_marker)"
    using string_arg_stringlike [OF m, of tostr] by (simp add: string_find_def message_of_def)
  have n: "str_find (render tostr (message_of r)) completion_marker \<noteq> None"
    using c str_find_iff [of "render tostr (message_of r)" completion_marker]
    by (simp add: is_completion_def)
  have cl: "combine_logs tostr st tag ts (LTable r) t = aggregate tostr tid ts (LTable r) r t st"
    using k by (simp add: combine_logs_valid)
  have "map_of (buffer (make_room (cleanup_buffer t st))) tid = None"
    using l make_room_keys [of "cleanup_buffer t st"] by (auto simp: map_of_None_keys)
  then show "map_of (buffer (snd (combine_logs tostr st tag ts (LTable r) t))) tid = None"
    unfolding cl aggregate_new [where r = r and ts = ts and rcd = "LTable r", OF f l]
    using n by (simp add: Let_def)
  show "fst (combine_logs tostr st tag ts (LTable r) t) =
           Inr (1, ts, combined_record ((apply_record (message_of r) r (new_entry tid r t))\<lparr>completed := True\<rparr>)
                 (render tostr (message_of r)))"
    unfolding cl aggregate_new [where r = r and ts = ts and rcd = "LTable r", OF f l]
    using n by (simp add: Let_def message_of_def)
qed

lemma foldl_overwrite:
  "foldl (overwrite f) v rs =
     (case filter (\<lambda>v. v \<noteq> LNil) (map (\<lambda>r. r f) rs) of [] \<Rightarrow> v | w # ws \<Rightarrow> last (w # ws))"
proof (induction rs arbitrary: v)
  case Nil
  show ?case by simp
next
  case (Cons r rs)
  show ?case
    unfolding foldl_Cons Cons.IH
    by (cases "filter (\<lambda>v. v \<noteq> LNil) (map (\<lambda>r. r f) rs)") (simp_all add: overwrite_def)
qed

lemma last_present_foldl: "last_present f rs = foldl (overwrite f) LNil rs"
  by (simp add: last_present_def foldl_overwrite)

lemma apply_all_messages:
  "messages (apply_all e cs) = messages e @ map (\<lambda>c. message_of (call_table c)) cs"
  by (induction cs arbitrary: e) simp_all

lemma apply_all_traceId: "traceId (apply_all e cs) = traceId e"
  by (induction cs arbitrary: e) simp_all

lemma apply_all_fields:
  "method_field (apply_all e cs) = foldl (overwrite ''method'') (method_field e) (map call_table cs)"
  "path (apply_all e cs) = foldl (overwrite ''path'') (path e) (map call_table cs)"
  "status (apply_all e cs) = foldl (overwrite ''status'') (status e) (map call_table cs)"
  "latencyMs (apply_all e cs) = foldl (overwrite ''latencyMs'') (latencyMs e) (map call_table cs)"
  by (induction cs arbitrary: e) (simp_all add: apply_record_fields overwrite_def)

lemma apply_all_append: "apply_all e (cs @ ds) = apply_all (apply_all e cs) ds"
  by (induction cs arbitrary: e) simp_all

lemma gaps_ok_append:
  "gaps_ok (ts @ [t]) \<longleftrightarrow> gaps_ok ts \<and> (ts \<noteq> [] \<longrightarrow> t - last ts \<le> STALE_TIMEOUT_SEC)"
  by (induction ts rule: gaps_ok.induct) auto

lemma new_entry_last_seen [simp]: "(new_entry tid r t)\<lparr>last_seen := t\<rparr> = new_entry tid r t"
  by (simp add: new_entry_def)

lemma group_of_Cons:
  "group_of tid (c # cs) =
     apply_all (apply_record (message_of (call_table c)) (call_table c)
                  (new_entry tid (call_table c) (call_time c))) cs"
  by (simp add: group_of_def)

lemma group_of_fields:
  assumes "cs \<noteq> []"
  shows "method_field (group_of tid cs) = last_present ''method'' (map call_table cs)"
    and "path (group_of tid cs) = last_present ''path'' (map call_table cs)"
    and "status (group_of tid cs) = last_present ''status'' (map call_table cs)"
    and "latencyMs (group_of tid cs) = last_present ''latencyMs'' (map call_table cs)"
proof -
  obtain c ds where cs: "cs = c # ds" using assms by (cases cs) auto
  have o: "overwrite f LNil (call_table c) = call_table c f" for f
    by (simp add: overwrite_def)
  show "method_field (group_of tid cs) = last_present ''method'' (map call_table cs)"
    and "path (group_of tid cs) = last_present ''path'' (map call_table cs)"
    and "status (group_of tid cs) = last_present ''status'' (map call_table cs)"
    and "latencyMs (group_of tid cs) = last_present ''latencyMs'' (map call_table cs)"
    unfolding cs group_of_Cons last_present_foldl
    by (simp_all add: apply_all_fields new_entry_fields o)
qed

text \<open>The records \<open>pre\<close> of one trace, none completing, then the completing record
  \<open>fin\<close>, from a state with no group for the trace.\<close>

lemma run_logs_group:
  assumes i: "state_inv st" and l: "map_of (buffer st) tid = None" and tid: "tid \<noteq> []"
    and v: "\<forall>c \<in> set (pre @ [fin]). call_table c ''traceId'' = LStr tid \<and>
              stringlike (message_of (call_table c))"
    and nc: "\<forall>c \<in> set pre. \<not> is_completion tostr (call_table c)"
    and c: "is_completion tostr (call_table fin)"
    and g: "gaps_ok (map call_time (pre @ [fin]))"
  shows "fst (run_logs tostr st (map to_call (pre @ [fin]))) =
           map suppressed pre @
           [Inr (1, call_ts fin,
              combined_record ((group_of tid (pre @ [fin]))\<lparr>completed := True\<rparr>)
                (join_with newline
                   (map (\<lambda>c. render tostr (message_of (call_table c))) (pre @ [fin]))))]"
    and "map_of (buffer (snd (run_logs tostr st (map to_call (pre @ [fin]))))) tid = None"
proof -
  obtain tag ts r t where fin: "fin = (tag, ts, r, t)" by (cases fin)
  have cf: "call_time fin = t" "call_table fin = r" "to_call fin = (tag, ts, LTable r, t)"
    "call_ts fin = ts"
    using fin by (simp_all add: call_time_def call_table_def to_call_def call_ts_def)
  have kf: "r ''traceId'' = LStr tid" and mf: "stringlike (message_of r)"
    using v cf by simp_all
  have cr: "is_completion tostr r" using c cf by simp
  have both: "fst (run_logs tostr st (map to_call (pre @ [fin]))) =
           map suppressed pre @
           [Inr (1, call_ts fin,
              combined_record ((group_of tid (pre @ [fin]))\<lparr>completed := True\<rparr>)
                (join_with newline
                   (map (\<lambda>c. render tostr (message_of (call_table c))) (pre @ [fin]))))] \<and>
     map_of (buffer (snd (run_logs tostr st (map to_call (pre @ [fin]))))) tid = None"
  proof (cases pre)
    case Nil
    have l': "map_of (buffer (cleanup_buffer t st)) tid = None"
      using l by (rule cleanup_buffer_absent)
    note fl = combine_logs_flush_new [OF i l' kf tid mf cr, of tag ts]
    show ?thesis
      using fl unfolding Nil
      by (simp add: cf run_logs_step group_of_def)
  next
    case (Cons c1 ds)
    obtain tag1 ts1 r1 t1 where c1: "c1 = (tag1, ts1, r1, t1)" by (cases c1)
    have c1f: "call_time c1 = t1" "call_table c1 = r1" "to_call c1 = (tag1, ts1, LTable r1, t1)"
      "suppressed c1 = Inr (- 1, ts1, LTable r1)"
      using c1 by (simp_all add: call_time_def call_table_def to_call_def suppressed_def)
    have k1: "r1 ''traceId'' = LStr tid" and m1: "stringlike (message_of r1)"
      using v c1f Cons by simp_all
    have nc1: "\<not> is_completion tostr r1" using nc c1f Cons by simp
    let ?st1 = "snd (combine_logs tostr st tag1 ts1 (LTable r1) t1)"
    let ?e1 = "apply_record (message_of r1) r1 (new_entry tid r1 t1)"
    note cr1 = combine_logs_create [OF l k1 tid m1 nc1, of tag1 ts1 t1]
    have i1: "state_inv ?st1" using i by (rule inv_combine_logs)
    have vd: "\<forall>c \<in> set ds. call_table c ''traceId'' = LStr tid \<and>
                stringlike (message_of (call_table c)) \<and> \<not> is_completion tostr (call_table c)"
      using v nc Cons by simp
    have g1: "gaps_ok ((t1 # map call_time ds) @ [t])"
      using g Cons c1f cf by simp
    then have gd: "gaps_ok (last_seen ?e1 # map call_time ds)"
      and gl: "t - last (t1 # map call_time ds) \<le> STALE_TIMEOUT_SEC"
      unfolding gaps_ok_append by (simp_all add: new_entry_def)
    note tr = run_logs_touch [OF i1 cr1(2) tid vd gd]
    let ?st2 = "snd (run_logs tostr ?st1 (map to_call ds))"
    let ?e2 = "apply_all ?e1 ds"
    have i2: "state_inv ?st2" using i1 by (rule state_inv_run_logs)
    have l2: "map_of (buffer ?st2) tid = Some ?e2" using tr by simp
    have g2: "t - last_seen ?e2 \<le> STALE_TIMEOUT_SEC"
      using gl by (simp add: apply_all_last_seen new_entry_def)
    note fl = combine_logs_flush [OF i2 l2 g2 kf tid mf cr, of tag ts]
    have e: "group_of tid (pre @ [fin]) = apply_record (message_of r) r (?e2\<lparr>last_seen := t\<rparr>)"
      unfolding Cons append_Cons group_of_Cons apply_all_append
      by (simp add: c1f cf)
    have ms: "map (render tostr) (messages ?e2 @ [message_of r]) =
                map (\<lambda>c. render tostr (message_of (call_table c))) (pre @ [fin])"
      unfolding Cons by (simp add: apply_all_messages new_entry_def c1f cf)
    have "run_logs tostr st (map to_call (pre @ [fin])) =
            (fst (combine_logs tostr st tag1 ts1 (LTable r1) t1) #
               fst (run_logs tostr ?st1 (map to_call ds)) @
               [fst (combine_logs tostr ?st2 tag ts (LTable r) t)],
             snd (combine_logs tostr ?st2 tag ts (LTable r) t))"
      unfolding Cons by (simp add: c1f cf run_logs_step run_logs_append)
    then show ?thesis
      using cr1(1) tr fl unfolding e ms by (simp add: Cons c1f cf)
  qed
  from both show "fst (run_logs tostr st (map to_call (pre @ [fin]))) =
           map suppressed pre @
           [Inr (1, call_ts fin,
              combined_record ((group_of tid (pre @ [fin]))\<lparr>completed := True\<rparr>)
                (join_with newline
                   (map (\<lambda>c. render tostr (message_of (call_table c))) (pre @ [fin]))))]"
    by simp
  from both show "map_of (buffer (snd (run_logs tostr st (map to_call (pre @ [fin]))))) tid = None"
    by simp
qed

lemma scenario_A:
  "fst (run_logs tostring_int init_state
          [(tag1, ts1, LTable table_a1, t1), (tag2, ts2, LTable table_a2, t2)]) =
     [Inr (- 1, ts1, LTable table_a1), Inr (1, ts2, LTable table_a_combined)]"
  by (simp add: run_logs_step table_a1_def table_a2_def table_a_combined_def newline_def eval_defs fun_eq_iff)

lemma table_a1_props:
  "table_a1 ''traceId'' = LStr ''abc''" "stringlike (message_of table_a1)"
  "\<not> is_completion tostring_int table_a1"
  "render tostring_int (message_of table_a1) = ''handler finished''"
  unfolding is_completion_def str_find_iff [symmetric]
  by (simp_all add: table_a1_def message_of_def lua_or_def completion_marker_def)

lemma table_a2_props:
  "table_a2 ''traceId'' = LStr ''abc''" "stringlike (message_of table_a2)"
  "is_completion tostring_int table_a2"
  "render tostring_int (message_of table_a2) = ''request completed''"
  unfolding is_completion_def str_find_iff [symmetric]
  by (simp_all add: table_a2_def message_of_def lua_or_def completion_marker_def)

lemma reachable_run_logs:
  fixes tostr :: "'n \<Rightarrow> string" and cs :: "('n, 'n) call list"
  shows "reachable tostr st \<Longrightarrow> reachable tostr (snd (run_logs tostr st cs))"
proof (induction cs arbitrary: st)
  case Nil
  then show ?case by simp
next
  case (Cons c cs)
  obtain tag ts rcd t where c: "c = (tag, ts, rcd, t)" by (cases c)
  show ?case
    using Cons.IH [OF reachable_step [OF Cons.prems, of tag ts rcd t]]
    unfolding c run_logs_step by simp
qed

lemma combine_logs_counter:
  "r ''traceId'' = LStr tid \<Longrightarrow> tid \<noteq> [] \<Longrightarrow>
   cleanup_counter (snd (combine_logs tostr st tag ts (LTable r) t)) =
     (if cleanup_counter st + 1 < CLEANUP_INTERVAL then cleanup_counter st + 1 else 0)"
  by (simp add: combine_logs_valid aggregate_counter cleanup_buffer_counter)

lemma run_logs_counter:
  assumes "\<forall>c \<in> set cs. valid_call c" "cleanup_counter st + length cs < CLEANUP_INTERVAL"
  shows "cleanup_counter (snd (run_logs tostr st (map to_call cs))) = cleanup_counter st + length cs"
  using assms
proof (induction cs arbitrary: st)
  case Nil
  then show ?case by simp
next
  case (Cons c cs)
  obtain tag ts r t where c: "c = (tag, ts, r, t)" by (cases c)
  obtain tid where k: "r ''traceId'' = LStr tid" "tid \<noteq> []"
    using Cons.prems(1) c by (auto simp: valid_call_def call_table_def)
  let ?st1 = "snd (combine_logs tostr st tag ts (LTable r) t)"
  have c1: "cleanup_counter ?st1 = cleanup_counter st + 1"
    using Cons.prems(2) by (simp add: combine_logs_counter [where r = r, OF k])
  have "cleanup_counter (snd (run_logs tostr ?st1 (map to_call cs))) = cleanup_counter ?st1 + length cs"
    using Cons.prems c1 by (intro Cons.IH) simp_all
  moreover have "to_call c = (tag, ts, LTable r, t)" using c by (simp add: to_call_def)
  ultimately show ?case by (simp add: run_logs_step c1)
qed

text \<open>The counter counts the valid calls modulo 100.\<close>

lemma run_logs_counter_mod:
  assumes "\<forall>c \<in> set cs. valid_call c" "cleanup_counter st < CLEANUP_INTERVAL"
  shows "cleanup_counter (snd (run_logs tostr st (map to_call cs))) =
           (cleanup_counter st + length cs) mod CLEANUP_INTERVAL"
  using assms
proof (induction cs arbitrary: st)
  case Nil
  then show ?case by simp
next
  case (Cons c cs)
  obtain tag ts r t where c: "c = (tag, ts, r, t)" by (cases c)
  have tc: "to_call c = (tag, ts, LTable r, t)" using c by (simp add: to_call_def)
  obtain tid where k: "r ''traceId'' = LStr tid" "tid \<noteq> []"
    using Cons.prems(1) c by (auto simp: valid_call_def call_table_def)
  let ?st1 = "snd (combine_logs tostr st tag ts (LTable r) t)"
  have c1: "cleanup_counter ?st1 = (cleanup_counter st + 1) mod CLEANUP_INTERVAL"
  proof (cases "cleanup_counter st + 1 < CLEANUP_INTERVAL")
    case True
    then show ?thesis by (simp add: combine_logs_counter [where r = r, OF k])
  next
    case False
    then have "cleanup_counter st + 1 = CLEANUP_INTERVAL" using Cons.prems(2) by arith
    then show ?thesis using False by (simp add: combine_logs_counter [where r = r, OF k])
  qed
  then have "cleanup_counter ?st1 < CLEANUP_INTERVAL"
    using CLEANUP_INTERVAL_pos by simp
  then have "cleanup_counter (snd (run_logs tostr ?st1 (map to_call cs))) =
               (cleanup_counter ?st1 + length cs) mod CLEANUP_INTERVAL"
    using Cons.prems(1) by (intro Cons.IH) simp_all
  also have "\<dots> = (cleanup_counter st + length (c # cs)) mod CLEANUP_INTERVAL"
    unfolding c1 by (simp add: mod_add_left_eq)
  finally show ?case by (simp add: tc run_logs_step)
qed

lemma gaps_ok_replicate: "gaps_ok (t # replicate n t)"
  by (induction n) (simp_all add: STALE_TIMEOUT_SEC_def)

lemma call_a1_props:
  "call_table call_a1 = table_a1" "call_time call_a1 = 0" "call_ts call_a1 = 0"
  "to_call call_a1 = (''app'', 0, LTable table_a1, 0)"
  "suppressed call_a1 = Inr (- 1, 0, LTable table_a1)" "valid_call call_a1"
  by (simp_all add: call_a1_def call_table_def call_time_def call_ts_def to_call_def
      suppressed_def valid_call_def table_a1_props)

lemma replicate_99: "replicate 99 x = x # replicate 98 x"
  by (simp add: numeral_eq_Suc)

lemma st_99_props:
  "reachable tostring_int st_99"
  "cleanup_counter st_99 = 99"
  "fst (run_logs tostring_int init_state (map to_call (replicate 99 call_a1))) =
     replicate 99 (Inr (- 1, 0, LTable table_a1))"
  "\<exists>e. map_of (buffer st_99) ''abc'' = Some e \<and> last_seen e = 0"
proof -
  show "reachable tostring_int st_99"
    unfolding st_99_def by (rule reachable_run_logs [OF reachable_init])
  have "cleanup_counter st_99 = cleanup_counter (init_state :: int state) + length (replicate 99 call_a1)"
    unfolding st_99_def
    by (rule run_logs_counter) (simp_all add: call_a1_props init_state_def CLEANUP_INTERVAL_def)
  then show "cleanup_counter st_99 = 99" by (simp add: init_state_def)
  let ?st1 = "snd (combine_logs tostring_int init_state ''app'' (0::int) (LTable table_a1) 0)"
  let ?e1 = "apply_record (message_of table_a1) table_a1 (new_entry ''abc'' table_a1 0)"
  have l0: "map_of (buffer (init_state :: int state)) ''abc'' = None" by (simp add: init_state_def)
  note cr = combine_logs_create [OF l0 table_a1_props(1) _ table_a1_props(2,3), of "''app''" 0 0]
  have i1: "state_inv ?st1" using inv_init_state by (rule inv_combine_logs)
  have tr: "fst (run_logs tostring_int ?st1 (map to_call (replicate 98 call_a1))) =
              map suppressed (replicate 98 call_a1) \<and>
            map_of (buffer (snd (run_logs tostring_int ?st1 (map to_call (replicate 98 call_a1))))) ''abc'' =
              Some (apply_all ?e1 (replicate 98 call_a1))"
    using cr(2)
    by (intro run_logs_touch [OF i1])
       (simp_all add: call_a1_props table_a1_props new_entry_def gaps_ok_replicate)
  have st: "st_99 = snd (run_logs tostring_int ?st1 (map to_call (replicate 98 call_a1)))"
    unfolding st_99_def replicate_99 by (simp add: call_a1_props run_logs_step)
  show "\<exists>e. map_of (buffer st_99) ''abc'' = Some e \<and> last_seen e = 0"
    unfolding st using tr by (simp add: apply_all_last_seen call_a1_props new_entry_def)
  show "fst (run_logs tostring_int init_state (map to_call (replicate 99 call_a1))) =
     replicate 99 (Inr (- 1, 0, LTable table_a1))"
    unfolding replicate_99 [of call_a1] replicate_99 [of "Inr (- 1, 0, LTable table_a1)"]
    using tr cr(1) by (simp add: call_a1_props run_logs_step)
qed

lemma call_a2_props:
  "call_table call_a2 = table_a2" "call_time call_a2 = 1" "call_ts call_a2 = 0"
  "to_call call_a2 = (''app'', 0, LTable table_a2, 1)"
  by (simp_all add: call_a2_def call_table_def call_time_def call_ts_def to_call_def)

subsection \<open>Records of other traces\<close>

lemma combine_logs_emits_own:
  assumes i: "state_inv st" and k: "r ''traceId'' = LStr tid" "tid \<noteq> []"
    and e: "fst (combine_logs tostr st tag ts (LTable r) t) = Inr (1, ts', LTable out)"
  shows "out ''traceId'' = LStr tid"
proof -
  let ?m = "lua_or (r ''message'') (LStr [])"
  have ok: "entries_ok st" using i by (simp add: state_inv_def)
  have cl: "combine_logs tostr st tag ts (LTable r) t = aggregate tostr tid ts (LTable r) r t st"
    using k by (simp add: combine_logs_valid)
  show ?thesis
  proof (cases "string_find tostr ?m completion_marker")
    case (Inl err)
    then show ?thesis using e unfolding cl by (simp add: aggregate_raises)
  next
    case (Inr found)
    show ?thesis
    proof (cases "map_of (buffer (cleanup_buffer t st)) tid")
      case None
      show ?thesis
        using e unfolding cl aggregate_new [where r = r and ts = ts and rcd = "LTable r", OF Inr None]
        by (auto simp: Let_def combined_record_table combined_table_fields new_entry_def
            split: if_splits)
    next
      case (Some e0)
      have "traceId e0 = tid"
        using entries_ok_lookup [OF entries_ok_cleanup_buffer [OF ok] Some] by (simp add: entry_ok_def)
      then show ?thesis
        using e unfolding cl aggregate_existing [where r = r and ts = ts and rcd = "LTable r", OF ok Inr Some]
        by (auto simp: Let_def combined_record_table combined_table_fields split: if_splits)
    qed
  qed
qed

text \<open>A record of another trace leaves the group of \<open>k\<close> as it is or removes it; it removes
  it when the call sweeps and the group is stale.\<close>

lemma combine_logs_untouched:
  assumes i: "state_inv st" and k: "r ''traceId'' = LStr tid" "tid \<noteq> []" "tid \<noteq> k"
  shows "map_of (buffer (snd (combine_logs tostr st tag ts (LTable r) t))) k = None \<or>
         map_of (buffer (snd (combine_logs tostr st tag ts (LTable r) t))) k = map_of (buffer st) k"
    and "map_of (buffer st) k = Some e \<Longrightarrow> stale t e \<Longrightarrow>
         \<not> cleanup_counter st + 1 < CLEANUP_INTERVAL \<Longrightarrow>
         map_of (buffer (snd (combine_logs tostr st tag ts (LTable r) t))) k = None"
proof -
  have cl: "combine_logs tostr st tag ts (LTable r) t = aggregate tostr tid ts (LTable r) r t st"
    using k by (simp add: combine_logs_valid)
  have lk: "map_of (buffer (cleanup_buffer t st)) k =
     (case map_of (buffer st) k of
        None \<Rightarrow> None
      | Some e \<Rightarrow> if \<not> cleanup_counter st + 1 < CLEANUP_INTERVAL \<and> stale t e then None else Some e)"
    using i by (simp add: cleanup_buffer_lookup state_inv_def bounded_def)
  note ao = aggregate_other [of k tid tostr ts "LTable r" r t st]
  show "map_of (buffer (snd (combine_logs tostr st tag ts (LTable r) t))) k = None \<or>
         map_of (buffer (snd (combine_logs tostr st tag ts (LTable r) t))) k = map_of (buffer st) k"
    using ao k(3) unfolding cl lk by (auto split: option.splits if_splits)
  show "map_of (buffer (snd (combine_logs tostr st tag ts (LTable r) t))) k = None"
    if "map_of (buffer st) k = Some e" "stale t e" "\<not> cleanup_counter st + 1 < CLEANUP_INTERVAL"
    using ao k(3) that unfolding cl lk by auto
qed

lemma run_logs_absent:
  assumes "state_inv st" and "map_of (buffer st) k = None" and "\<forall>c \<in> set cs. other_call k c"
  shows "map_of (buffer (snd (run_logs tostr st (map to_call cs)))) k = None"
  using assms
proof (induction cs arbitrary: st)
  case Nil
  then show ?case by simp
next
  case (Cons c cs)
  obtain tag ts r t where c: "c = (tag, ts, r, t)" by (cases c)
  have tc: "to_call c = (tag, ts, LTable r, t)" using c by (simp add: to_call_def)
  obtain tid where k: "r ''traceId'' = LStr tid" "tid \<noteq> []" "tid \<noteq> k"
    using Cons.prems(3) c by (auto simp: other_call_def call_table_def)
  let ?st1 = "snd (combine_logs tostr st tag ts (LTable r) t)"
  have "map_of (buffer ?st1) k = None"
    using combine_logs_untouched(1) [where r = r and tostr = tostr and tag = tag and ts = ts and t = t, OF Cons.prems(1) k] Cons.prems(2) by auto
  moreover have "state_inv ?st1" using Cons.prems(1) by (rule inv_combine_logs)
  ultimately have "map_of (buffer (snd (run_logs tostr ?st1 (map to_call cs)))) k = None"
    using Cons.prems(3) by (intro Cons.IH) simp_all
  then show ?case by (simp add: tc run_logs_step)
qed

text \<open>The staleness bound: once the counter has gone round, a stale group that no record
  touched is gone.\<close>

lemma run_logs_sweeps:
  assumes "state_inv st" and "map_of (buffer st) k = Some e"
    and "\<forall>c \<in> set cs. other_call k c \<and> stale (call_time c) e"
    and "CLEANUP_INTERVAL \<le> cleanup_counter st + length cs"
  shows "map_of (buffer (snd (run_logs tostr st (map to_call cs)))) k = None"
  using assms
proof (induction cs arbitrary: st)
  case Nil
  then show ?case by (simp add: state_inv_def bounded_def)
next
  case (Cons c cs)
  obtain tag ts r t where c: "c = (tag, ts, r, t)" by (cases c)
  have tc: "to_call c = (tag, ts, LTable r, t)" "call_time c = t"
    using c by (simp_all add: to_call_def call_time_def)
  obtain tid where k: "r ''traceId'' = LStr tid" "tid \<noteq> []" "tid \<noteq> k"
    using Cons.prems(3) c by (auto simp: other_call_def call_table_def)
  have s: "stale t e" using Cons.prems(3) tc by simp
  let ?st1 = "snd (combine_logs tostr st tag ts (LTable r) t)"
  have i1: "state_inv ?st1" using Cons.prems(1) by (rule inv_combine_logs)
  have oc: "\<forall>c \<in> set cs. other_call k c" using Cons.prems(3) by simp
  note un = combine_logs_untouched [where r = r and tostr = tostr and tag = tag and ts = ts and t = t, OF Cons.prems(1) k]
  have "map_of (buffer (snd (run_logs tostr ?st1 (map to_call cs)))) k = None"
  proof (cases "map_of (buffer ?st1) k")
    case None
    with i1 show ?thesis using oc by (rule run_logs_absent)
  next
    case (Some e')
    then have l1: "map_of (buffer ?st1) k = Some e" using un(1) Cons.prems(2) by auto
    have ns: "cleanup_counter st + 1 < CLEANUP_INTERVAL"
      using un(2) [OF Cons.prems(2) s] Some by auto
    then have "cleanup_counter ?st1 = cleanup_counter st + 1"
      by (simp add: combine_logs_counter [where r = r, OF k(1,2)])
    then have "CLEANUP_INTERVAL \<le> cleanup_counter ?st1 + length cs"
      using Cons.prems(4) by simp
    with i1 l1 show ?thesis using Cons.prems(3) by (intro Cons.IH) simp_all
  qed
  then show ?case by (simp add: tc run_logs_step)
qed

lemma run_logs_emits_own:
  assumes "state_inv st" and "\<forall>c \<in> set cs. other_call k c"
    and "Inr (1, ts', LTable out) \<in> set (fst (run_logs tostr st (map to_call cs)))"
  shows "out ''traceId'' \<noteq> LStr k"
  using assms
proof (induction cs arbitrary: st)
  case Nil
  then show ?case by simp
next
  case (Cons c cs)
  obtain tag ts r t where c: "c = (tag, ts, r, t)" by (cases c)
  have tc: "to_call c = (tag, ts, LTable r, t)" using c by (simp add: to_call_def)
  obtain tid where k: "r ''traceId'' = LStr tid" "tid \<noteq> []" "tid \<noteq> k"
    using Cons.prems(2) c by (auto simp: other_call_def call_table_def)
  let ?st1 = "snd (combine_logs tostr st tag ts (LTable r) t)"
  have i1: "state_inv ?st1" using Cons.prems(1) by (rule inv_combine_logs)
  from Cons.prems(3) consider
    "fst (combine_logs tostr st tag ts (LTable r) t) = Inr (1, ts', LTable out)"
    | "Inr (1, ts', LTable out) \<in> set (fst (run_logs tostr ?st1 (map to_call cs)))"
    by (auto simp: tc run_logs_step)
  then show ?case
  proof cases
    case 1
    then show ?thesis using combine_logs_emits_own [where r = r, OF Cons.prems(1) k(1,2) 1] k(3) by auto
  next
    case 2
    with i1 show ?thesis using Cons.prems(2) by (intro Cons.IH) simp_all
  qed
qed

lemma run_logs_invalid:
  assumes "\<forall>(tag, ts, rcd, t) \<in> set cs. \<not> valid_key (trace_id_of rcd)"
  shows "snd (run_logs tostr st cs) = st"
  using assms
proof (induction cs)
  case Nil
  show ?case by simp
next
  case (Cons c cs)
  obtain tag ts rcd t where c: "c = (tag, ts, rcd, t)" by (cases c)
  have "\<not> valid_key (trace_id_of rcd)" using Cons.prems c by simp
  then show ?case using Cons unfolding c by (simp add: run_logs_step combine_logs_invalid)
qed

subsection \<open>The states of the scenarios\<close>

lemma step_a1_first:
  "combine_logs tostring_int init_state ''app'' (0::int) (LTable table_a1) 0 =
     (Inr (- 1, 0, LTable table_a1), state_a 1)"
  by (simp add: table_a1_def eval_defs state_a_def entry_a_def)

lemma step_a1_next:
  "0 < n \<Longrightarrow> n < 99 \<Longrightarrow>
   combine_logs tostring_int (state_a n) ''app'' (0::int) (LTable table_a1) 0 =
     (Inr (- 1, 0, LTable table_a1), state_a (Suc n))"
  by (simp add: table_a1_def eval_defs state_a_def entry_a_def replicate_append_same)

lemma run_a1:
  "n < 99 \<Longrightarrow>
   run_logs tostring_int init_state (map to_call (replicate (Suc n) call_a1)) =
     (replicate (Suc n) (Inr (- 1, 0, LTable table_a1)), state_a (Suc n))"
proof (induction n)
  case 0
  show ?case by (simp add: call_a1_props run_logs_step step_a1_first)
next
  case (Suc n)
  have r: "replicate (Suc (Suc n)) x = replicate (Suc n) x @ [x]" for x :: 'a
    by (simp add: replicate_append_same)
  show ?case
    unfolding r [of call_a1] map_append run_logs_append
    using Suc by (simp add: call_a1_props run_logs_step step_a1_next replicate_append_same)
qed

lemma st_99_eq: "st_99 = state_a 99"
  using run_a1 [of 98] by (simp add: st_99_def)

lemma call_b1_props:
  "call_table call_b1 = table_b1" "call_time call_b1 = 31"
  "table_b1 ''traceId'' = LStr ''xyz''"
  by (simp_all add: call_b1_def call_table_def call_time_def table_b1_def)

subsection \<open>Filling the buffer\<close>

lemma length_buffer_order: "lru_inv st \<Longrightarrow> length (buffer st) = length (buffer_order st)"
proof -
  assume "lru_inv st"
  then have d: "distinct (map fst (buffer st))" "distinct (buffer_order st)"
    and s: "set (buffer_order st) = set (map fst (buffer st))"
    by (simp_all add: lru_inv_def)
  have "length (buffer st) = card (set (map fst (buffer st)))"
    using distinct_card [OF d(1)] by simp
  also have "\<dots> = length (buffer_order st)"
    using distinct_card [OF d(2)] s by simp
  finally show ?thesis .
qed

lemma cleanup_buffer_fresh:
  assumes i: "state_inv st" and fr: "\<forall>(k, e) \<in> set (buffer st). \<not> stale t e"
  shows "cleanup_buffer t st =
     st\<lparr>cleanup_counter := (if cleanup_counter st + 1 < CLEANUP_INTERVAL then cleanup_counter st + 1 else 0)\<rparr>"
proof (cases "cleanup_counter st + 1 < CLEANUP_INTERVAL")
  case True
  then show ?thesis by (simp add: cleanup_buffer_no_sweep)
next
  case False
  have l: "lru_inv st" "length (buffer_order st) \<le> MAX_BUFFER_SIZE"
    using i by (simp_all add: state_inv_def bounded_def)
  have b: "filter (\<lambda>(k, e). \<not> stale t e) (buffer st) = buffer st"
    using fr by (auto simp: filter_id_conv)
  have o: "filter (\<lambda>k. \<forall>e. map_of (buffer st) k = Some e \<longrightarrow> \<not> stale t e) (buffer_order st) =
             buffer_order st"
    using fr by (auto simp: filter_id_conv dest: map_of_SomeD)
  show ?thesis
    unfolding cleanup_buffer_sweep [OF l False] b o using False by simp
qed

lemma make_room_counter_update:
  "buffer (make_room (st\<lparr>cleanup_counter := c\<rparr>)) = buffer (make_room st)"
  "buffer_order (make_room (st\<lparr>cleanup_counter := c\<rparr>)) = buffer_order (make_room st)"
  by (simp_all add: make_room_def evict_oldest_def split: list.splits)

lemma update_absent: "k \<notin> fst ` set al \<Longrightarrow> AList.update k v al = al @ [(k, v)]"
  by (induction al) auto

text \<open>A record that opens a group, at a time when no live group is stale.\<close>

lemma combine_logs_insert:
  assumes i: "state_inv st" and l: "map_of (buffer st) tid = None"
    and k: "r ''traceId'' = LStr tid" "tid \<noteq> []"
    and m: "stringlike (message_of r)" and nc: "\<not> is_completion tostr r"
    and fr: "\<forall>(k, e) \<in> set (buffer st). \<not> stale t e"
  shows "fst (combine_logs tostr st tag ts (LTable r) t) = Inr (- 1, ts, LTable r)"
    and "buffer_order (snd (combine_logs tostr st tag ts (LTable r) t)) =
           buffer_order (make_room st) @ [tid]"
    and "buffer (snd (combine_logs tostr st tag ts (LTable r) t)) =
           buffer (make_room st) @ [(tid, apply_record (message_of r) r (new_entry tid r t))]"
proof -
  have f: "string_find tostr (lua_or (r ''message'') (LStr [])) completion_marker =
             Inr (str_find (render tostr (message_of r)) completion_marker)"
    using string_arg_stringlike [OF m, of tostr] by (simp add: string_find_def message_of_def)
  have n: "str_find (render tostr (message_of r)) completion_marker = None"
    using nc str_find_iff [of "render tostr (message_of r)" completion_marker]
    by (simp add: is_completion_def)
  have s: "map_of (buffer (cleanup_buffer t st)) tid = None"
    using l by (rule cleanup_buffer_absent)
  have cl: "combine_logs tostr st tag ts (LTable r) t = aggregate tostr tid ts (LTable r) r t st"
    using k by (simp add: combine_logs_valid)
  have notin: "tid \<notin> fst ` set (buffer (make_room st))"
    using l make_room_keys [of st] by (auto simp: map_of_None_keys)
  show "fst (combine_logs tostr st tag ts (LTable r) t) = Inr (- 1, ts, LTable r)"
    unfolding cl aggregate_new [where r = r and ts = ts and rcd = "LTable r", OF f s]
    using n by (simp add: Let_def)
  show "buffer_order (snd (combine_logs tostr st tag ts (LTable r) t)) =
           buffer_order (make_room st) @ [tid]"
    unfolding cl aggregate_new [where r = r and ts = ts and rcd = "LTable r", OF f s]
    using n by (simp add: Let_def cleanup_buffer_fresh [OF i fr] make_room_counter_update)
  show "buffer (snd (combine_logs tostr st tag ts (LTable r) t)) =
           buffer (make_room st) @ [(tid, apply_record (message_of r) r (new_entry tid r t))]"
    unfolding cl aggregate_new [where r = r and ts = ts and rcd = "LTable r", OF f s]
    using n notin
    by (simp add: Let_def cleanup_buffer_fresh [OF i fr] make_room_counter_update update_absent
        message_of_def)
qed

lemma spread_ok_append:
  "spread_ok (ts @ [t]) \<longleftrightarrow> spread_ok ts \<and> (\<forall>u \<in> set ts. t - u \<le> STALE_TIMEOUT_SEC)"
  by (induction ts) auto

text \<open>Distinct traces, none completing, no more of them than the buffer holds, from the
  initial state: every one is buffered, in order.\<close>

lemma run_logs_fill:
  assumes "length cs \<le> MAX_BUFFER_SIZE" and "distinct (map call_key cs)"
    and "\<forall>c \<in> set cs. incomplete_call tostr c" and "spread_ok (map call_time cs)"
  shows "fst (run_logs tostr init_state (map to_call cs)) = map suppressed cs \<and>
         buffer_order (snd (run_logs tostr init_state (map to_call cs))) = map call_key cs \<and>
         map fst (buffer (snd (run_logs tostr init_state (map to_call cs)))) = map call_key cs \<and>
         (\<forall>(k, e) \<in> set (buffer (snd (run_logs tostr init_state (map to_call cs)))).
            last_seen e \<in> set (map call_time cs))"
  using assms
proof (induction cs rule: rev_induct)
  case Nil
  show ?case by (simp add: init_state_def)
next
  case (snoc c cs)
  obtain tag ts r t where c: "c = (tag, ts, r, t)" by (cases c)
  have tc: "to_call c = (tag, ts, LTable r, t)" "call_time c = t" "call_table c = r"
    "suppressed c = Inr (- 1, ts, LTable r)"
    using c by (simp_all add: to_call_def call_time_def call_table_def suppressed_def)
  let ?st = "snd (run_logs tostr init_state (map to_call cs))"
  have ih: "fst (run_logs tostr init_state (map to_call cs)) = map suppressed cs"
    "buffer_order ?st = map call_key cs" "map fst (buffer ?st) = map call_key cs"
    "\<forall>(k, e) \<in> set (buffer ?st). last_seen e \<in> set (map call_time cs)"
    using snoc by (simp_all add: spread_ok_append)
  have i: "state_inv ?st" using inv_init_state by (rule state_inv_run_logs)
  have ic: "incomplete_call tostr c" using snoc.prems(3) by simp
  then have k: "r ''traceId'' = LStr (call_key c)" "call_key c \<noteq> []"
    and m: "stringlike (message_of r)" and nc: "\<not> is_completion tostr r"
    using tc by (simp_all add: incomplete_call_def)
  have "call_key c \<notin> set (map fst (buffer ?st))"
    using snoc.prems(2) ih(3) by simp
  then have l: "map_of (buffer ?st) (call_key c) = None"
    by (simp add: map_of_None_keys)
  have fr: "\<forall>(k, e) \<in> set (buffer ?st). \<not> stale t e"
    using ih(4) snoc.prems(4) tc by (fastforce simp: spread_ok_append stale_def)
  have mr: "make_room ?st = ?st"
    using snoc.prems(1) ih(2) by (simp add: make_room_def)
  note ins = combine_logs_insert [where r = r, OF i l k m nc fr, of tag ts]
  have ls: "last_seen (apply_record (message_of r) r (new_entry (call_key c) r t)) = t"
    by (simp add: new_entry_def)
  show ?case
    unfolding map_append run_logs_append
    using ih ins ls by (auto simp: tc run_logs_step mr)
qed

text \<open>Scenario B, for any records of distinct traces.\<close>

lemma run_logs_overflow:
  assumes len: "length cs = MAX_BUFFER_SIZE + 1" and d: "distinct (map call_key cs)"
    and ic: "\<forall>c \<in> set cs. incomplete_call tostr c" and sp: "spread_ok (map call_time cs)"
  shows "fst (run_logs tostr init_state (map to_call cs)) = map suppressed cs"
    and "buffer_order (snd (run_logs tostr init_state (map to_call cs))) = map call_key (tl cs)"
    and "map fst (buffer (snd (run_logs tostr init_state (map to_call cs)))) = map call_key (tl cs)"
proof -
  obtain pre c where cs: "cs = pre @ [c]"
    using len by (cases cs rule: rev_cases) auto
  obtain tag ts r t where c: "c = (tag, ts, r, t)" by (cases c)
  have tc: "to_call c = (tag, ts, LTable r, t)" "call_time c = t" "call_table c = r"
    "suppressed c = Inr (- 1, ts, LTable r)"
    using c by (simp_all add: to_call_def call_time_def call_table_def suppressed_def)
  have lp: "length pre = MAX_BUFFER_SIZE" using len cs by simp
  then obtain p ps where pre: "pre = p # ps"
    using MAX_BUFFER_SIZE_pos by (cases pre) auto
  let ?st = "snd (run_logs tostr init_state (map to_call pre))"
  have fill: "fst (run_logs tostr init_state (map to_call pre)) = map suppressed pre"
    "buffer_order ?st = map call_key pre" "map fst (buffer ?st) = map call_key pre"
    "\<forall>(k, e) \<in> set (buffer ?st). last_seen e \<in> set (map call_time pre)"
    using run_logs_fill [of pre tostr] lp d ic sp unfolding cs
    by (simp_all add: spread_ok_append)
  have i: "state_inv ?st" using inv_init_state by (rule state_inv_run_logs)
  have k: "r ''traceId'' = LStr (call_key c)" "call_key c \<noteq> []"
    and m: "stringlike (message_of r)" and nc: "\<not> is_completion tostr r"
    using ic tc cs by (simp_all add: incomplete_call_def)
  have "call_key c \<notin> set (map fst (buffer ?st))"
    using d fill(3) cs by simp
  then have l: "map_of (buffer ?st) (call_key c) = None"
    by (simp add: map_of_None_keys)
  have fr: "\<forall>(k, e) \<in> set (buffer ?st). \<not> stale t e"
    using fill(4) sp tc unfolding cs by (fastforce simp: spread_ok_append stale_def)
  have dk: "call_key p \<notin> set (map call_key ps)" using d cs pre by simp
  have mr: "buffer_order (make_room ?st) = map call_key ps"
    "map fst (buffer (make_room ?st)) = map call_key ps"
    using fill(2,3) lp dk
    by (simp_all add: make_room_def evict_oldest_def pre AList.delete_keys)
  note ins = combine_logs_insert [where r = r, OF i l k m nc fr, of tag ts]
  show "fst (run_logs tostr init_state (map to_call cs)) = map suppressed cs"
    unfolding cs map_append run_logs_append using fill(1) ins(1) by (simp add: tc run_logs_step)
  show "buffer_order (snd (run_logs tostr init_state (map to_call cs))) = map call_key (tl cs)"
    unfolding cs map_append run_logs_append using ins(2) mr(1) by (simp add: tc run_logs_step pre)
  show "map fst (buffer (snd (run_logs tostr init_state (map to_call cs)))) = map call_key (tl cs)"
    unfolding cs map_append run_logs_append using ins(3) mr(2) by (simp add: tc run_logs_step pre)
qed

text \<open>A new trace arriving when the buffer is full at the lookup.\<close>

lemma combine_logs_evicts:
  assumes i: "state_inv st" and k: "r ''traceId'' = LStr tid" "tid \<noteq> []"
    and m: "stringlike (message_of r)"
    and l: "map_of (buffer (cleanup_buffer t st)) tid = None"
    and full: "length (buffer (cleanup_buffer t st)) = MAX_BUFFER_SIZE"
  shows "map_of (buffer (cleanup_buffer t st)) (hd (buffer_order (cleanup_buffer t st))) \<noteq> None \<and>
      map_of (buffer (snd (combine_logs tostr st tag ts (LTable r) t)))
        (hd (buffer_order (cleanup_buffer t st))) = None \<and>
      (\<forall>k. k \<noteq> hd (buffer_order (cleanup_buffer t st)) \<and> k \<noteq> tid \<longrightarrow>
         map_of (buffer (snd (combine_logs tostr st tag ts (LTable r) t))) k =
           map_of (buffer (cleanup_buffer t st)) k) \<and>
      (\<not> is_completion tostr r \<longrightarrow>
         fst (combine_logs tostr st tag ts (LTable r) t) = Inr (- 1, ts, LTable r) \<and>
         buffer_order (snd (combine_logs tostr st tag ts (LTable r) t)) =
           tl (buffer_order (cleanup_buffer t st)) @ [tid] \<and>
         map_of (buffer (snd (combine_logs tostr st tag ts (LTable r) t))) tid \<noteq> None \<and>
         length (buffer (snd (combine_logs tostr st tag ts (LTable r) t))) = MAX_BUFFER_SIZE) \<and>
      (is_completion tostr r \<longrightarrow>
         (\<exists>out. fst (combine_logs tostr st tag ts (LTable r) t) = Inr (1, ts, LTable out) \<and>
            out ''traceId'' = LStr tid \<and>
            out ''message'' = LStr (render tostr (message_of r))) \<and>
         buffer_order (snd (combine_logs tostr st tag ts (LTable r) t)) =
           tl (buffer_order (cleanup_buffer t st)))"
proof -
  let ?st1 = "cleanup_buffer t st"
  let ?res = "combine_logs tostr st tag ts (LTable r) t"
  have i1: "state_inv ?st1" using i by (rule inv_cleanup_buffer)
  then have lru: "lru_inv ?st1" by (simp add: state_inv_def)
  have lo: "length (buffer_order ?st1) = MAX_BUFFER_SIZE"
    using full length_buffer_order [OF lru] by simp
  then obtain oldest rest where o: "buffer_order ?st1 = oldest # rest"
    using MAX_BUFFER_SIZE_pos by (cases "buffer_order ?st1") auto
  have hd: "hd (buffer_order ?st1) = oldest" using o by simp
  have "oldest \<in> fst ` set (buffer ?st1)" using lru o by (auto simp: lru_inv_def)
  then have live: "map_of (buffer ?st1) (hd (buffer_order ?st1)) \<noteq> None"
    unfolding hd by (simp add: map_of_None_keys)
  have ne: "oldest \<noteq> tid" using live l hd by auto
  have nr: "tid \<notin> set rest" using lru_inv_notin_order [OF lru l] o by simp
  have mr: "make_room ?st1 = ?st1\<lparr>buffer := AList.delete oldest (buffer ?st1), buffer_order := rest\<rparr>"
    using lo o by (simp add: make_room_def evict_oldest_def)
  have f: "string_find tostr (lua_or (r ''message'') (LStr [])) completion_marker =
             Inr (str_find (render tostr (message_of r)) completion_marker)"
    using string_arg_stringlike [OF m, of tostr] by (simp add: string_find_def message_of_def)
  have c: "str_find (render tostr (message_of r)) completion_marker \<noteq> None \<longleftrightarrow> is_completion tostr r"
    unfolding str_find_iff by (simp add: is_completion_def)
  have cl: "?res = aggregate tostr tid ts (LTable r) r t st"
    using k by (simp add: combine_logs_valid)
  note ag = aggregate_new [where r = r and ts = ts and rcd = "LTable r", OF f l]
  have gone: "map_of (buffer (snd ?res)) (hd (buffer_order ?st1)) = None"
    unfolding hd cl ag mr using ne
    by (simp add: Let_def AList.delete_conv' AList.update_conv')
  have rest: "\<forall>k. k \<noteq> hd (buffer_order ?st1) \<and> k \<noteq> tid \<longrightarrow>
           map_of (buffer (snd ?res)) k = map_of (buffer ?st1) k"
    unfolding hd cl ag mr
    by (simp add: Let_def AList.delete_conv' AList.update_conv')
  have supp: "fst ?res = Inr (- 1, ts, LTable r) \<and>
        buffer_order (snd ?res) = tl (buffer_order ?st1) @ [tid] \<and>
        map_of (buffer (snd ?res)) tid \<noteq> None \<and>
        length (buffer (snd ?res)) = MAX_BUFFER_SIZE"
    if nc: "\<not> is_completion tostr r"
  proof -
    have "lru_inv (snd ?res)" using i by (simp add: state_inv_def lru_inv_combine_logs)
    then have "length (buffer (snd ?res)) = length (buffer_order (snd ?res))"
      by (rule length_buffer_order)
    moreover have "fst ?res = Inr (- 1, ts, LTable r) \<and>
        buffer_order (snd ?res) = tl (buffer_order ?st1) @ [tid] \<and>
        map_of (buffer (snd ?res)) tid \<noteq> None"
      unfolding cl ag mr using nc c o
      by (simp add: Let_def AList.update_conv')
    ultimately show ?thesis using lo o by simp
  qed
  have emit: "(\<exists>out. fst ?res = Inr (1, ts, LTable out) \<and> out ''traceId'' = LStr tid \<and>
              out ''message'' = LStr (render tostr (message_of r))) \<and>
        buffer_order (snd ?res) = tl (buffer_order ?st1)"
    if co: "is_completion tostr r"
    unfolding cl ag mr using co c o nr
    by (simp add: Let_def combined_record_table combined_table_fields new_entry_def
        remove1_append message_of_def)
  show ?thesis
  proof (intro conjI impI)
    show "map_of (buffer ?st1) (hd (buffer_order ?st1)) \<noteq> None" by (rule live)
    show "map_of (buffer (snd ?res)) (hd (buffer_order ?st1)) = None" by (rule gone)
    show "\<forall>k. k \<noteq> hd (buffer_order ?st1) \<and> k \<noteq> tid \<longrightarrow>
           map_of (buffer (snd ?res)) k = map_of (buffer ?st1) k" by (rule rest)
  qed (use supp emit in simp_all)
qed

lemma key_k_inj: "key_k i = key_k j \<longleftrightarrow> i = j"
proof
  assume "key_k i = key_k j"
  then have "length (key_k i) = length (key_k j)" by simp
  then show "i = j" by (simp add: key_k_def)
qed simp

lemma call_k_props:
  "call_table (call_k i) = table_k i" "call_time (call_k i) = 0"
  "call_key (call_k i) = key_k i" "incomplete_call tostring_int (call_k i)"
  "table_k i ''traceId'' = LStr (key_k i)" "key_k i \<noteq> []"
  "stringlike (message_of (table_k i))" "\<not> is_completion tostring_int (table_k i)"
  "to_call (call_k i) = (''app'', 0, LTable (table_k i), 0)"
proof -
  show t: "call_table (call_k i) = table_k i"
    by (simp add: call_k_def call_table_def table_k_def)
  show "call_time (call_k i) = 0" by (simp add: call_k_def call_time_def)
  show k: "table_k i ''traceId'' = LStr (key_k i)" by (simp add: table_k_def)
  then show ck: "call_key (call_k i) = key_k i" by (simp add: call_key_def t)
  show ne: "key_k i \<noteq> []" by (simp add: key_k_def)
  have m: "message_of (table_k i) = LStr []"
    by (simp add: message_of_def table_k_def empty_table_def lua_or_def)
  then show s: "stringlike (message_of (table_k i))" by simp
  show nc: "\<not> is_completion tostring_int (table_k i)"
    unfolding is_completion_def str_find_iff [symmetric]
    by (simp add: m completion_marker_def)
  show "incomplete_call tostring_int (call_k i)"
    using k ne s nc by (simp add: incomplete_call_def t ck)
  show "to_call (call_k i) = (''app'', 0, LTable (table_k i), 0)"
    by (simp add: call_k_def to_call_def table_k_def)
qed

lemma distinct_keys_k: "distinct (map call_key (map call_k [0..<n]))"
  by (simp add: distinct_map call_k_props inj_on_def key_k_inj comp_def)

lemma spread_ok_zero: "\<forall>t \<in> set ts. t = 0 \<Longrightarrow> spread_ok ts"
  by (induction ts) (auto simp: STALE_TIMEOUT_SEC_def)

lemma spread_ok_k: "spread_ok (map call_time (map call_k [0..<n]))"
  by (rule spread_ok_zero) (simp add: call_k_props)

lemma st_full_props:
  "reachable tostring_int st_full"
  "buffer_order st_full = map key_k [0..<1000]"
  "map fst (buffer st_full) = map key_k [0..<1000]"
  "buffer (cleanup_buffer 0 st_full) = buffer st_full"
  "buffer_order (cleanup_buffer 0 st_full) = buffer_order st_full"
proof -
  show r: "reachable tostring_int st_full"
    unfolding st_full_def by (rule reachable_run_logs [OF reachable_init])
  note fill = run_logs_fill [of "map call_k [0..<1000]" tostring_int, folded st_full_def]
  have f: "buffer_order st_full = map call_key (map call_k [0..<1000]) \<and>
           map fst (buffer st_full) = map call_key (map call_k [0..<1000]) \<and>
           (\<forall>(k, e) \<in> set (buffer st_full). last_seen e \<in> set (map call_time (map call_k [0..<1000])))"
    using fill distinct_keys_k [of 1000] spread_ok_k [of 1000]
    by (simp add: MAX_BUFFER_SIZE_def call_k_props)
  then show "buffer_order st_full = map key_k [0..<1000]"
    and "map fst (buffer st_full) = map key_k [0..<1000]"
    by (simp_all add: call_k_props comp_def)
  have "\<forall>(k, e) \<in> set (buffer st_full). \<not> stale 0 e"
    using f by (auto simp: stale_def call_k_props STALE_TIMEOUT_SEC_def)
  from cleanup_buffer_fresh [OF reachable_inv [OF r] this]
  show "buffer (cleanup_buffer 0 st_full) = buffer st_full"
    and "buffer_order (cleanup_buffer 0 st_full) = buffer_order st_full"
    by simp_all
qed

lemma call_k_late_props:
  "call_table (call_k_late i) = table_k i" "call_time (call_k_late i) = 31"
  "call_key (call_k_late i) = key_k i"
  "to_call (call_k_late i) = (''app'', 0, LTable (table_k i), 31)"
  "suppressed (call_k_late i) = Inr (- 1, 0, LTable (table_k i))"
  by (simp_all add: call_k_late_def call_table_def call_time_def call_key_def to_call_def
      suppressed_def call_k_props)

lemma valid_call_k: "valid_call (call_k i)"
  by (simp add: valid_call_def call_k_props)

text \<open>After 999 traces at time 0 the counter is at 99, and the sweep of a call at time 31
  empties the buffer and the order.\<close>

lemma st_k999_props:
  "state_inv st_k999"
  "fst (run_logs tostring_int init_state (map to_call (map call_k [0..<999]))) =
     map suppressed (map call_k [0..<999])"
  "cleanup_buffer 31 st_k999 = st_k999\<lparr>cleanup_counter := 0, buffer := [], buffer_order := []\<rparr>"
proof -
  show i: "state_inv st_k999"
    unfolding st_k999_def using inv_init_state by (rule state_inv_run_logs)
  note fill = run_logs_fill [of "map call_k [0..<999]" tostring_int, folded st_k999_def]
  have f: "fst (run_logs tostring_int init_state (map to_call (map call_k [0..<999]))) =
             map suppressed (map call_k [0..<999]) \<and>
           (\<forall>(k, e) \<in> set (buffer st_k999). last_seen e \<in> set (map call_time (map call_k [0..<999])))"
    using fill distinct_keys_k [of 999] spread_ok_k [of 999]
    by (simp add: MAX_BUFFER_SIZE_def call_k_props)
  then show "fst (run_logs tostring_int init_state (map to_call (map call_k [0..<999]))) =
     map suppressed (map call_k [0..<999])"
    by simp
  have st: "\<forall>(k, e) \<in> set (buffer st_k999). stale 31 e"
    using f by (auto simp: stale_def call_k_props STALE_TIMEOUT_SEC_def)
  have "cleanup_counter st_k999 =
          (cleanup_counter (init_state :: int state) + length (map call_k [0..<999])) mod CLEANUP_INTERVAL"
    unfolding st_k999_def
    by (rule run_logs_counter_mod) (simp_all add: valid_call_k init_state_def CLEANUP_INTERVAL_def)
  then have c: "cleanup_counter st_k999 = 99"
    by (simp add: init_state_def CLEANUP_INTERVAL_def)
  have l: "lru_inv st_k999" "length (buffer_order st_k999) \<le> MAX_BUFFER_SIZE"
    using i by (simp_all add: state_inv_def bounded_def)
  have ns: "\<not> cleanup_counter st_k999 + 1 < CLEANUP_INTERVAL"
    using c by (simp add: CLEANUP_INTERVAL_def)
  have b: "filter (\<lambda>(k, e). \<not> stale 31 e) (buffer st_k999) = []"
    using st by (auto simp: filter_empty_conv)
  have "\<exists>e. map_of (buffer st_k999) k = Some e \<and> stale 31 e" if "k \<in> set (buffer_order st_k999)" for k
  proof -
    have "k \<in> fst ` set (buffer st_k999)" using that l(1) by (simp add: lru_inv_def)
    then obtain e where e: "map_of (buffer st_k999) k = Some e"
      by (metis map_of_None_keys not_None_eq)
    then have "(k, e) \<in> set (buffer st_k999)" by (rule map_of_SomeD)
    then show ?thesis using st e by auto
  qed
  then have o: "filter (\<lambda>k. \<forall>e. map_of (buffer st_k999) k = Some e \<longrightarrow> \<not> stale 31 e)
                  (buffer_order st_k999) = []"
    by (auto simp: filter_empty_conv)
  show "cleanup_buffer 31 st_k999 = st_k999\<lparr>cleanup_counter := 0, buffer := [], buffer_order := []\<rparr>"
    unfolding cleanup_buffer_sweep [OF l ns] b o ..
qed

lemma reachable_state_a1: "reachable tostring_int (state_a 1)"
  using reachable_step [OF reachable_init, of tostring_int "''app''" 0 "LTable table_a1" 0]
  by (simp add: step_a1_first)

lemma step_p1:
  "combine_logs tostring_int init_state ''app'' (0::int) (LTable table_p1) 0 =
     (Inr (- 1, 0, LTable table_p1), state_p)"
  by (simp add: table_p1_def eval_defs state_p_def entry_p_def)

lemma reachable_state_p: "reachable tostring_int state_p"
  using reachable_step [OF reachable_init, of tostring_int "''app''" 0 "LTable table_p1" 0]
  by (simp add: step_p1)

subsection \<open>The order of eviction\<close>

lemma thins_refl: "thins st st"
  unfolding thins_def by (rule exI [of _ "\<lambda>k. True"]) simp

lemma thins_trans: "thins st st' \<Longrightarrow> thins st' st'' \<Longrightarrow> thins st st''"
proof -
  assume "thins st st'" "thins st' st''"
  then obtain Q R where "buffer_order st' = filter Q (buffer_order st)"
    "buffer_order st'' = filter R (buffer_order st')"
    unfolding thins_def by blast
  then have "buffer_order st'' = filter (\<lambda>k. Q k \<and> R k) (buffer_order st)" by simp
  then show ?thesis unfolding thins_def by blast
qed

lemma thins_cleanup_buffer:
  assumes "state_inv st"
  shows "thins st (cleanup_buffer t st)"
proof (cases "cleanup_counter st + 1 < CLEANUP_INTERVAL")
  case True
  then show ?thesis
    unfolding thins_def cleanup_buffer_no_sweep [OF True]
    by (intro exI [of _ "\<lambda>k. True"]) simp
next
  case False
  have l: "lru_inv st" "length (buffer_order st) \<le> MAX_BUFFER_SIZE"
    using assms by (simp_all add: state_inv_def bounded_def)
  show ?thesis
    unfolding thins_def cleanup_buffer_sweep [OF l False]
    by (intro exI [of _ "\<lambda>k. \<forall>e. map_of (buffer st) k = Some e \<longrightarrow> \<not> stale t e"]) simp
qed

lemma thins_make_room:
  assumes "lru_inv st"
  shows "thins st (make_room st)"
proof (cases "length (buffer_order st) \<ge> MAX_BUFFER_SIZE")
  case False
  then show ?thesis by (simp add: make_room_def thins_refl)
next
  case True
  show ?thesis
  proof (cases "buffer_order st")
    case Nil
    then show ?thesis by (simp add: make_room_def evict_oldest_def thins_refl)
  next
    case (Cons k ks)
    have d: "distinct (buffer_order st)" using assms by (simp add: lru_inv_def)
    have "buffer_order (make_room st) = remove1 k (buffer_order st)"
      using True Cons by (simp add: make_room_def evict_oldest_def)
    then show ?thesis
      unfolding thins_def remove1_filter [OF d] by blast
  qed
qed

text \<open>With the invariant on both sides, the keys kept are the keys still in the
  buffer.\<close>

lemma thins_live:
  assumes "thins st st'" "lru_inv st" "lru_inv st'"
  shows "buffer_order st' = filter (\<lambda>k. map_of (buffer st') k \<noteq> None) (buffer_order st)"
proof -
  obtain Q where q: "buffer_order st' = filter Q (buffer_order st)"
    using assms(1) unfolding thins_def by blast
  have "Q k \<longleftrightarrow> map_of (buffer st') k \<noteq> None" if "k \<in> set (buffer_order st)" for k
  proof -
    have "map_of (buffer st') k \<noteq> None \<longleftrightarrow> k \<in> set (buffer_order st')"
      using assms(3) by (simp add: lru_inv_def map_of_None_keys)
    also have "\<dots> \<longleftrightarrow> Q k" unfolding q using that by simp
    finally show ?thesis by simp
  qed
  then show ?thesis unfolding q by (auto intro: filter_cong)
qed

lemma filter_remove1_same: "filter (\<lambda>k. k \<noteq> x) (remove1 x xs) = filter (\<lambda>k. k \<noteq> x) xs"
  by (induction xs) auto

text \<open>A call that reads its record's message touches the group of the record: the trace
  is last in the order if its group is still there, and the other groups keep their
  order.\<close>

lemma combine_logs_recency:
  assumes i: "state_inv st" and k: "r ''traceId'' = LStr tid" "tid \<noteq> []"
    and m: "stringlike (message_of r)"
  shows "(map_of (buffer (snd (combine_logs tostr st tag ts (LTable r) t))) tid \<noteq> None \<longrightarrow>
            last (buffer_order (snd (combine_logs tostr st tag ts (LTable r) t))) = tid) \<and>
         filter (\<lambda>k. k \<noteq> tid) (buffer_order (snd (combine_logs tostr st tag ts (LTable r) t))) =
           filter (\<lambda>k. k \<noteq> tid \<and>
                        map_of (buffer (snd (combine_logs tostr st tag ts (LTable r) t))) k \<noteq> None)
             (buffer_order st)"
proof -
  let ?st1 = "cleanup_buffer t st"
  let ?res = "snd (combine_logs tostr st tag ts (LTable r) t)"
  have ok: "entries_ok st" and lru: "lru_inv st" using i by (simp_all add: state_inv_def)
  have i1: "state_inv ?st1" using i by (rule inv_cleanup_buffer)
  then have lru1: "lru_inv ?st1" by (simp add: state_inv_def)
  have th1: "thins st ?st1" using i by (rule thins_cleanup_buffer)
  have f: "string_find tostr (lua_or (r ''message'') (LStr [])) completion_marker =
             Inr (str_find (render tostr (message_of r)) completion_marker)"
    using string_arg_stringlike [OF m, of tostr] by (simp add: string_find_def message_of_def)
  have cl: "combine_logs tostr st tag ts (LTable r) t = aggregate tostr tid ts (LTable r) r t st"
    using k by (simp add: combine_logs_valid)
  txt \<open>In each case the state before the touch is \<open>stx\<close>; the touch changes the order and
    the buffer at \<open>tid\<close> only.\<close>
  have "\<exists>stx. thins st stx \<and> lru_inv stx \<and>
          filter (\<lambda>k. k \<noteq> tid) (buffer_order ?res) = filter (\<lambda>k. k \<noteq> tid) (buffer_order stx) \<and>
          (\<forall>k. k \<noteq> tid \<longrightarrow> map_of (buffer ?res) k = map_of (buffer stx) k) \<and>
          (map_of (buffer ?res) tid \<noteq> None \<longrightarrow> last (buffer_order ?res) = tid)"
  proof (cases "map_of (buffer ?st1) tid")
    case None
    let ?st2 = "make_room ?st1"
    have lru2: "lru_inv ?st2" using lru1 by (rule lru_inv_make_room)
    have th2: "thins st ?st2" using th1 thins_make_room [OF lru1] by (rule thins_trans)
    have n2: "map_of (buffer ?st2) tid = None"
      using None make_room_keys [of ?st1] by (auto simp: map_of_None_keys)
    have "filter (\<lambda>k. k \<noteq> tid) (buffer_order ?res) = filter (\<lambda>k. k \<noteq> tid) (buffer_order ?st2) \<and>
          (\<forall>k. k \<noteq> tid \<longrightarrow> map_of (buffer ?res) k = map_of (buffer ?st2) k) \<and>
          (map_of (buffer ?res) tid \<noteq> None \<longrightarrow> last (buffer_order ?res) = tid)"
      unfolding cl aggregate_new [where r = r and ts = ts and rcd = "LTable r", OF f None]
      using n2 by (simp add: Let_def filter_remove1_same AList.update_conv')
    with th2 lru2 show ?thesis by blast
  next
    case (Some e)
    have "filter (\<lambda>k. k \<noteq> tid) (buffer_order ?res) = filter (\<lambda>k. k \<noteq> tid) (buffer_order ?st1) \<and>
          (\<forall>k. k \<noteq> tid \<longrightarrow> map_of (buffer ?res) k = map_of (buffer ?st1) k) \<and>
          (map_of (buffer ?res) tid \<noteq> None \<longrightarrow> last (buffer_order ?res) = tid)"
      unfolding cl aggregate_existing [where r = r and ts = ts and rcd = "LTable r", OF ok f Some]
      by (simp add: Let_def filter_remove1_same AList.update_conv' AList.delete_conv'
          update_lru_order_def)
    with th1 lru1 show ?thesis by blast
  qed
  then obtain stx where x: "thins st stx" "lru_inv stx"
    "filter (\<lambda>k. k \<noteq> tid) (buffer_order ?res) = filter (\<lambda>k. k \<noteq> tid) (buffer_order stx)"
    "\<forall>k. k \<noteq> tid \<longrightarrow> map_of (buffer ?res) k = map_of (buffer stx) k"
    "map_of (buffer ?res) tid \<noteq> None \<longrightarrow> last (buffer_order ?res) = tid"
    by blast
  have "filter (\<lambda>k. k \<noteq> tid) (buffer_order stx) =
          filter (\<lambda>k. k \<noteq> tid \<and> map_of (buffer stx) k \<noteq> None) (buffer_order st)"
    unfolding thins_live [OF x(1) lru x(2)] by (auto intro: filter_cong)
  also have "\<dots> = filter (\<lambda>k. k \<noteq> tid \<and> map_of (buffer ?res) k \<noteq> None) (buffer_order st)"
    using x(4) by (auto intro: filter_cong)
  finally show ?thesis using x(3,5) by simp
qed

section \<open>The properties\<close>

subsection \<open>C1\<close>

text \<open>
  Claim C1, as stated, fails when the group goes stale inside the sequence. From the
  initial state, 99 records of trace \<^verbatim>\<open>abc\<close> with message \<^verbatim>\<open>handler finished\<close> are
  processed at time 0 and the completing record at time 31. The hundredth call runs the
  sweep, which drops the group (31 - 0 > 30) before the record is looked up: the record
  emitted holds the last message alone, which is not the hundred messages joined.
\<close>

theorem C1_grouping_counterexample:
  "fst (run_logs tostring_int init_state (map to_call (replicate 99 call_a1 @ [call_a2_late]))) =
     replicate 99 (Inr (- 1, 0, LTable table_a1)) @ [Inr (1, 0, LTable table_a2_alone)] \<and>
   table_a2_alone ''message'' = LStr ''request completed'' \<and>
   ''request completed'' \<noteq>
     join_with newline (replicate 99 ''handler finished'' @ [''request completed''])"
proof -
  have "replicate 99 x = x # x # replicate 97 x" for x :: string
    by (simp add: numeral_eq_Suc)
  then have j: "''request completed'' \<noteq>
     join_with newline (replicate 99 ''handler finished'' @ [''request completed''])"
    by simp
  have m: "table_a2_alone ''message'' = LStr ''request completed''"
    by (simp add: table_a2_alone_def)
  obtain e where e: "map_of (buffer st_99) ''abc'' = Some e" "last_seen e = 0"
    using st_99_props(4) by blast
  have i: "state_inv st_99" using st_99_props(1) by (rule reachable_inv)
  have "map_of (buffer (cleanup_buffer 31 st_99)) ''abc'' = None"
    using i e st_99_props(2)
    by (simp add: cleanup_buffer_lookup state_inv_def bounded_def stale_def
        CLEANUP_INTERVAL_def STALE_TIMEOUT_SEC_def)
  note fl = combine_logs_flush_new [OF i this table_a2_props(1) _ table_a2_props(2,3), of "''app''" 0]
  have "fst (combine_logs tostring_int st_99 ''app'' (0::int) (LTable table_a2) 31) =
          Inr (1, 0, LTable table_a2_alone)"
    unfolding fl(1) [simplified]
    by (simp add: message_of_def combined_record_def apply_record_def new_entry_def Let_def
        table_a2_def table_a2_alone_def lua_or_def empty_table_def fun_eq_iff)
  moreover have "to_call call_a2_late = (''app'', 0, LTable table_a2, 31)"
    by (simp add: call_a2_late_def to_call_def)
  ultimately have "fst (run_logs tostring_int init_state
        (map to_call (replicate 99 call_a1 @ [call_a2_late]))) =
     replicate 99 (Inr (- 1, 0, LTable table_a1)) @ [Inr (1, 0, LTable table_a2_alone)]"
    unfolding map_append run_logs_append st_99_props(3) st_99_def [symmetric]
    by (simp add: run_logs_step)
  with m j show ?thesis by simp
qed

text \<open>
  Claim C1, amended. From a reachable state with no group for the trace \<open>tid\<close>, the
  records \<open>pre @ [fin]\<close> of that one trace are processed in turn: every message is a
  string (or a number, or absent), only the last record is a completion signal, and each
  record is processed at most 30 seconds after the one before it. Then every record but
  the last is dropped (code \<open>-1\<close>), and the last call returns code \<open>1\<close> with one combined
  record: its \<^verbatim>\<open>traceId\<close> is the trace, its message is the newline-join of all the
  messages in order, and its \<^verbatim>\<open>method\<close>, \<^verbatim>\<open>path\<close>, \<^verbatim>\<open>status\<close> and \<^verbatim>\<open>latencyMs\<close> are each the
  last value other than nil that the sequence gave to the field. The group is gone from
  the buffer afterwards. The last conjunct is Scenario A, from the initial state, for any
  two clock readings.
\<close>

theorem C1_grouping:
  assumes "reachable tostr st" and "map_of (buffer st) tid = None" and "tid \<noteq> []"
    and "\<forall>c \<in> set (pre @ [fin]). call_table c ''traceId'' = LStr tid \<and>
           stringlike (message_of (call_table c))"
    and "\<forall>c \<in> set pre. \<not> is_completion tostr (call_table c)"
    and "is_completion tostr (call_table fin)"
    and "gaps_ok (map call_time (pre @ [fin]))"
  shows "(\<exists>out.
           fst (run_logs tostr st (map to_call (pre @ [fin]))) =
             map suppressed pre @ [Inr (1, call_ts fin, LTable out)] \<and>
           out ''traceId'' = LStr tid \<and>
           out ''message'' =
             LStr (join_with newline (map (\<lambda>c. render tostr (message_of (call_table c))) (pre @ [fin]))) \<and>
           out ''method'' = last_present ''method'' (map call_table (pre @ [fin])) \<and>
           out ''path'' = last_present ''path'' (map call_table (pre @ [fin])) \<and>
           out ''status'' = last_present ''status'' (map call_table (pre @ [fin])) \<and>
           out ''latencyMs'' = last_present ''latencyMs'' (map call_table (pre @ [fin]))) \<and>
         map_of (buffer (snd (run_logs tostr st (map to_call (pre @ [fin]))))) tid = None \<and>
         fst (run_logs tostring_int init_state
                [(tag_a, ts_a, LTable table_a1, t_a), (tag_b, ts_b, LTable table_a2, t_b)]) =
           [Inr (- 1, ts_a, LTable table_a1), Inr (1, ts_b, LTable table_a_combined)]"
proof -
  have i: "state_inv st" using assms(1) by (rule reachable_inv)
  note g = run_logs_group [OF i assms(2-7)]
  let ?e = "(group_of tid (pre @ [fin]))\<lparr>completed := True\<rparr>"
  let ?j = "join_with newline (map (\<lambda>c. render tostr (message_of (call_table c))) (pre @ [fin]))"
  have ne: "pre @ [fin] \<noteq> []" by simp
  have a: "fst (run_logs tostr st (map to_call (pre @ [fin]))) =
          map suppressed pre @ [Inr (1, call_ts fin, LTable (combined_table ?e ?j))]"
    using g(1) by (simp add: combined_record_table)
  have b: "combined_table ?e ?j ''traceId'' = LStr tid"
    by (simp add: combined_table_fields group_of_def apply_all_traceId new_entry_def)
  have c: "combined_table ?e ?j ''message'' = LStr ?j"
    by (simp add: combined_table_fields)
  have d: "combined_table ?e ?j ''method'' = last_present ''method'' (map call_table (pre @ [fin]))"
    "combined_table ?e ?j ''path'' = last_present ''path'' (map call_table (pre @ [fin]))"
    "combined_table ?e ?j ''status'' = last_present ''status'' (map call_table (pre @ [fin]))"
    "combined_table ?e ?j ''latencyMs'' = last_present ''latencyMs'' (map call_table (pre @ [fin]))"
    using group_of_fields [OF ne, of tid] by (simp_all add: combined_table_fields)
  show ?thesis
  proof (intro conjI)
    show "\<exists>out.
           fst (run_logs tostr st (map to_call (pre @ [fin]))) =
             map suppressed pre @ [Inr (1, call_ts fin, LTable out)] \<and>
           out ''traceId'' = LStr tid \<and>
           out ''message'' =
             LStr (join_with newline (map (\<lambda>c. render tostr (message_of (call_table c))) (pre @ [fin]))) \<and>
           out ''method'' = last_present ''method'' (map call_table (pre @ [fin])) \<and>
           out ''path'' = last_present ''path'' (map call_table (pre @ [fin])) \<and>
           out ''status'' = last_present ''status'' (map call_table (pre @ [fin])) \<and>
           out ''latencyMs'' = last_present ''latencyMs'' (map call_table (pre @ [fin]))"
      using a b c d by (intro exI [of _ "combined_table ?e ?j"] conjI)
    show "map_of (buffer (snd (run_logs tostr st (map to_call (pre @ [fin]))))) tid = None"
      by (rule g(2))
    show "fst (run_logs tostring_int init_state
                [(tag_a, ts_a, LTable table_a1, t_a), (tag_b, ts_b, LTable table_a2, t_b)]) =
           [Inr (- 1, ts_a, LTable table_a1), Inr (1, ts_b, LTable table_a_combined)]"
      by (rule scenario_A)
  qed
qed

text \<open>
  The amended claim C1 at the two records of Scenario A, one second apart.
\<close>

theorem C1_grouping_witness:
  "\<exists>out. fst (run_logs tostring_int init_state
               [(''app'', 0 :: int, LTable table_a1, 0), (''app'', 0, LTable table_a2, 1)]) =
            [Inr (- 1, 0, LTable table_a1), Inr (1, 0, LTable out)] \<and>
         out ''traceId'' = LStr ''abc'' \<and>
         out ''message'' = LStr (''handler finished'' @ newline @ ''request completed'') \<and>
         out ''method'' = LNil \<and> out ''path'' = LNil \<and>
         out ''status'' = LNum 200 \<and> out ''latencyMs'' = LNum 52"
proof -
  have r: "reachable tostring_int (init_state :: int state)" by (rule reachable_init)
  have l: "map_of (buffer (init_state :: int state)) ''abc'' = None" by (simp add: init_state_def)
  have lp: "last_present ''method'' [table_a1, table_a2] = LNil"
    "last_present ''path'' [table_a1, table_a2] = LNil"
    "last_present ''status'' [table_a1, table_a2] = LNum 200"
    "last_present ''latencyMs'' [table_a1, table_a2] = LNum 52"
    by (simp_all add: last_present_def table_a1_def table_a2_def empty_table_def)
  show ?thesis
    using C1_grouping [where pre = "[call_a1]" and fin = call_a2 and tag_a = "''app''"
        and ts_a = "0::int" and t_a = 0 and tag_b = "''app''" and ts_b = "0::int" and t_b = 1, OF r l]
    by (simp add: call_a1_props call_a2_props table_a1_props table_a2_props lp
        STALE_TIMEOUT_SEC_def table_a_combined_def empty_table_def)
qed

subsection \<open>C2\<close>

text \<open>
  Claim C2 at two completion records of trace \<^verbatim>\<open>abc\<close> in immediate succession, from the
  initial state: the filter returns code \<open>1\<close> both times, each time with the record of that
  call alone. The first call flushes and deletes the group, so the second finds none,
  creates one and flushes it; the guard of lines 113-117 is not reached. The second
  conjunct is the other half of the claim: a record that is no completion signal,
  arriving after the flush, opens a fresh group that holds its message alone.
\<close>

theorem C2_duplicate_completion_emits_twice:
  "fst (run_logs tostring_int init_state
          [(''app'', 0 :: int, LTable table_a2, 0), (''app'', 0, LTable table_a2, 0)]) =
     [Inr (1, 0, LTable table_a2_alone), Inr (1, 0, LTable table_a2_alone)] \<and>
   run_logs tostring_int init_state
          [(''app'', 0 :: int, LTable table_a2, 0), (''app'', 0, LTable table_a1, 0)] =
     ([Inr (1, 0, LTable table_a2_alone), Inr (- 1, 0, LTable table_a1)],
      \<lparr>buffer = [(''abc'', \<lparr>traceId = ''abc'', messages = [LStr ''handler finished''],
          method_field = LNil, path = LNil, status = LNum 200, latencyMs = LNil,
          last_seen = 0, completed = False\<rparr>)],
       buffer_order = [''abc''], cleanup_counter = 2\<rparr>)"
  by (simp add: run_logs_step table_a1_def table_a2_def table_a2_alone_def eval_defs fun_eq_iff)

subsection \<open>C3\<close>

text \<open>
  Claim C3, as stated, fails in Scenario B when time passes between the records. The
  1001 records have distinct traces and none is a completion signal; the first 999 are
  processed at time 0, the last two at time 31. Every call returns code \<open>-1\<close>. The
  call number 1000 is a sweep call (the counter reaches 100) and finds the 999 groups stale,
  so the sweep removes them all: at the end the buffer and the order hold the two traces
  sent last, not 1000, and the group removed at capacity, the first inserted, is not the
  only group that is gone.
\<close>

theorem C3_capacity_counterexample:
  "length (map call_k [0..<999] @ [call_k_late 999, call_k_late 1000]) = 1001 \<and>
   distinct (map call_key (map call_k [0..<999] @ [call_k_late 999, call_k_late 1000])) \<and>
   fst (run_logs tostring_int init_state
          (map to_call (map call_k [0..<999] @ [call_k_late 999, call_k_late 1000]))) =
     map suppressed (map call_k [0..<999] @ [call_k_late 999, call_k_late 1000]) \<and>
   buffer_order (snd (run_logs tostring_int init_state
          (map to_call (map call_k [0..<999] @ [call_k_late 999, call_k_late 1000])))) =
     [key_k 999, key_k 1000] \<and>
   map fst (buffer (snd (run_logs tostring_int init_state
          (map to_call (map call_k [0..<999] @ [call_k_late 999, call_k_late 1000]))))) =
     [key_k 999, key_k 1000]"
proof -
  let ?r = "table_k 999" and ?r' = "table_k 1000"
  let ?e = "apply_record (message_of ?r) ?r (new_entry (key_k 999) ?r 31)"
  let ?stA = "snd (combine_logs tostring_int st_k999 ''app'' (0::int) (LTable ?r) 31)"
  let ?stB = "snd (combine_logs tostring_int ?stA ''app'' (0::int) (LTable ?r') 31)"
  have d: "distinct (map call_key (map call_k [0..<999] @ [call_k_late 999, call_k_late 1000]))"
    using distinct_keys_k [of 999] by (auto simp: call_k_late_props call_k_props key_k_inj)
  have f: "string_find tostring_int (lua_or (?r ''message'') (LStr [])) completion_marker = Inr None"
    by (simp add: string_find_def table_k_def empty_table_def lua_or_def completion_marker_def)
  have n: "map_of (buffer (cleanup_buffer 31 st_k999)) (key_k 999) = None"
    by (simp add: st_k999_props(3))
  have cl: "combine_logs tostring_int st_k999 ''app'' (0::int) (LTable ?r) 31 =
              aggregate tostring_int (key_k 999) 0 (LTable ?r) ?r 31 st_k999"
    by (simp add: combine_logs_valid call_k_props)
  have a: "fst (combine_logs tostring_int st_k999 ''app'' (0::int) (LTable ?r) 31) =
             Inr (- 1, 0, LTable ?r)"
    "buffer ?stA = [(key_k 999, ?e)]" "buffer_order ?stA = [key_k 999]"
    unfolding cl aggregate_new [where r = ?r and ts = "0::int" and rcd = "LTable ?r", OF f n]
    by (simp_all add: Let_def st_k999_props(3) make_room_def MAX_BUFFER_SIZE_def message_of_def)
  have iA: "state_inv ?stA" using st_k999_props(1) by (rule inv_combine_logs)
  have lA: "map_of (buffer ?stA) (key_k 1000) = None"
    by (simp add: a key_k_inj)
  have frA: "\<forall>(k, e) \<in> set (buffer ?stA). \<not> stale 31 e"
    by (simp add: a stale_def new_entry_def STALE_TIMEOUT_SEC_def)
  have mr: "make_room ?stA = ?stA"
    by (simp add: make_room_def a MAX_BUFFER_SIZE_def)
  note ins = combine_logs_insert [where r = ?r' and tostr = tostring_int and tag = "''app''"
      and ts = "0::int", OF iA lA call_k_props(5,6,7,8) frA]
  have b: "fst (combine_logs tostring_int ?stA ''app'' (0::int) (LTable ?r') 31) =
             Inr (- 1, 0, LTable ?r')"
    "buffer_order ?stB = [key_k 999, key_k 1000]"
    "map fst (buffer ?stB) = [key_k 999, key_k 1000]"
    using ins by (simp_all add: mr a)
  have run: "run_logs tostring_int init_state
          (map to_call (map call_k [0..<999] @ [call_k_late 999, call_k_late 1000])) =
       (fst (run_logs tostring_int init_state (map to_call (map call_k [0..<999]))) @
          [fst (combine_logs tostring_int st_k999 ''app'' (0::int) (LTable ?r) 31),
           fst (combine_logs tostring_int ?stA ''app'' (0::int) (LTable ?r') 31)],
        ?stB)"
    unfolding map_append run_logs_append st_k999_def [symmetric]
    by (simp add: call_k_late_props run_logs_step)
  show ?thesis
    unfolding run using d a(1) b st_k999_props(2)
    by (simp add: call_k_late_props)
qed

text \<open>
  Claim C3, amended. First, in every reachable state the buffer and the order hold at
  most 1000 entries. Second, the order is the order of last touch: a call with a valid
  trace id and a message that can be read puts the trace last in the order if its group stays in the
  buffer, and leaves the groups of the other traces that stay in the buffer in the order
  they had. Third, when the record of a call opens a group and the buffer holds 1000
  groups at the lookup (after the cleanup of that call), the head of the order, which is
  the group touched least recently, is removed from the buffer and from the order before
  the new entry is stored, and every other group stays as it was; nothing of the removed
  group is returned: the call returns code \<open>-1\<close>, or, when the record is itself a
  completion signal, code \<open>1\<close> with that record's own message. Fourth, Scenario B: 1001
  records of distinct traces, none a completion signal, are processed from the initial
  state, each within 30 seconds after every earlier one, so that no sweep finds a stale
  group. Every call returns code \<open>-1\<close>; at the end the buffer and the order hold the last
  1000 traces, in order, and the first trace is gone.
\<close>

theorem C3_capacity:
  "(reachable tostr st \<longrightarrow>
      length (buffer st) \<le> MAX_BUFFER_SIZE \<and> length (buffer_order st) \<le> MAX_BUFFER_SIZE) \<and>
   (reachable tostr st \<and> r ''traceId'' = LStr tid \<and> tid \<noteq> [] \<and> stringlike (message_of r) \<longrightarrow>
      (map_of (buffer (snd (combine_logs tostr st tag ts (LTable r) t))) tid \<noteq> None \<longrightarrow>
         last (buffer_order (snd (combine_logs tostr st tag ts (LTable r) t))) = tid) \<and>
      filter (\<lambda>k. k \<noteq> tid) (buffer_order (snd (combine_logs tostr st tag ts (LTable r) t))) =
        filter (\<lambda>k. k \<noteq> tid \<and>
                     map_of (buffer (snd (combine_logs tostr st tag ts (LTable r) t))) k \<noteq> None)
          (buffer_order st)) \<and>
   (reachable tostr st \<and> r ''traceId'' = LStr tid \<and> tid \<noteq> [] \<and> stringlike (message_of r) \<and>
    map_of (buffer (cleanup_buffer t st)) tid = None \<and>
    length (buffer (cleanup_buffer t st)) = MAX_BUFFER_SIZE \<longrightarrow>
      map_of (buffer (cleanup_buffer t st)) (hd (buffer_order (cleanup_buffer t st))) \<noteq> None \<and>
      map_of (buffer (snd (combine_logs tostr st tag ts (LTable r) t)))
        (hd (buffer_order (cleanup_buffer t st))) = None \<and>
      (\<forall>k. k \<noteq> hd (buffer_order (cleanup_buffer t st)) \<and> k \<noteq> tid \<longrightarrow>
         map_of (buffer (snd (combine_logs tostr st tag ts (LTable r) t))) k =
           map_of (buffer (cleanup_buffer t st)) k) \<and>
      (\<not> is_completion tostr r \<longrightarrow>
         fst (combine_logs tostr st tag ts (LTable r) t) = Inr (- 1, ts, LTable r) \<and>
         buffer_order (snd (combine_logs tostr st tag ts (LTable r) t)) =
           tl (buffer_order (cleanup_buffer t st)) @ [tid] \<and>
         map_of (buffer (snd (combine_logs tostr st tag ts (LTable r) t))) tid \<noteq> None \<and>
         length (buffer (snd (combine_logs tostr st tag ts (LTable r) t))) = MAX_BUFFER_SIZE) \<and>
      (is_completion tostr r \<longrightarrow>
         (\<exists>out. fst (combine_logs tostr st tag ts (LTable r) t) = Inr (1, ts, LTable out) \<and>
            out ''traceId'' = LStr tid \<and>
            out ''message'' = LStr (render tostr (message_of r))) \<and>
         buffer_order (snd (combine_logs tostr st tag ts (LTable r) t)) =
           tl (buffer_order (cleanup_buffer t st)))) \<and>
   (length cs = MAX_BUFFER_SIZE + 1 \<and> distinct (map call_key cs) \<and>
    (\<forall>c \<in> set cs. incomplete_call tostr c) \<and> spread_ok (map call_time cs) \<longrightarrow>
      fst (run_logs tostr init_state (map to_call cs)) = map suppressed cs \<and>
      buffer_order (snd (run_logs tostr init_state (map to_call cs))) = map call_key (tl cs) \<and>
      map fst (buffer (snd (run_logs tostr init_state (map to_call cs)))) = map call_key (tl cs) \<and>
      map_of (buffer (snd (run_logs tostr init_state (map to_call cs)))) (call_key (hd cs)) = None \<and>
      length (buffer (snd (run_logs tostr init_state (map to_call cs)))) = MAX_BUFFER_SIZE)"
proof (intro conjI)
  show "reachable tostr st \<longrightarrow>
      length (buffer st) \<le> MAX_BUFFER_SIZE \<and> length (buffer_order st) \<le> MAX_BUFFER_SIZE"
  proof
    assume "reachable tostr st"
    then have "state_inv st" by (rule reachable_inv)
    then show "length (buffer st) \<le> MAX_BUFFER_SIZE \<and> length (buffer_order st) \<le> MAX_BUFFER_SIZE"
      using length_buffer_order [of st] by (simp add: state_inv_def bounded_def)
  qed
next
  show "reachable tostr st \<and> r ''traceId'' = LStr tid \<and> tid \<noteq> [] \<and> stringlike (message_of r) \<longrightarrow>
      (map_of (buffer (snd (combine_logs tostr st tag ts (LTable r) t))) tid \<noteq> None \<longrightarrow>
         last (buffer_order (snd (combine_logs tostr st tag ts (LTable r) t))) = tid) \<and>
      filter (\<lambda>k. k \<noteq> tid) (buffer_order (snd (combine_logs tostr st tag ts (LTable r) t))) =
        filter (\<lambda>k. k \<noteq> tid \<and>
                     map_of (buffer (snd (combine_logs tostr st tag ts (LTable r) t))) k \<noteq> None)
          (buffer_order st)"
  proof
    assume a: "reachable tostr st \<and> r ''traceId'' = LStr tid \<and> tid \<noteq> [] \<and> stringlike (message_of r)"
    then have i: "state_inv st" using reachable_inv [of tostr st] by simp
    show "(map_of (buffer (snd (combine_logs tostr st tag ts (LTable r) t))) tid \<noteq> None \<longrightarrow>
         last (buffer_order (snd (combine_logs tostr st tag ts (LTable r) t))) = tid) \<and>
      filter (\<lambda>k. k \<noteq> tid) (buffer_order (snd (combine_logs tostr st tag ts (LTable r) t))) =
        filter (\<lambda>k. k \<noteq> tid \<and>
                     map_of (buffer (snd (combine_logs tostr st tag ts (LTable r) t))) k \<noteq> None)
          (buffer_order st)"
      using a by (intro combine_logs_recency [where r = r, OF i]) simp_all
  qed
next
  show "reachable tostr st \<and> r ''traceId'' = LStr tid \<and> tid \<noteq> [] \<and> stringlike (message_of r) \<and>
    map_of (buffer (cleanup_buffer t st)) tid = None \<and>
    length (buffer (cleanup_buffer t st)) = MAX_BUFFER_SIZE \<longrightarrow>
      map_of (buffer (cleanup_buffer t st)) (hd (buffer_order (cleanup_buffer t st))) \<noteq> None \<and>
      map_of (buffer (snd (combine_logs tostr st tag ts (LTable r) t)))
        (hd (buffer_order (cleanup_buffer t st))) = None \<and>
      (\<forall>k. k \<noteq> hd (buffer_order (cleanup_buffer t st)) \<and> k \<noteq> tid \<longrightarrow>
         map_of (buffer (snd (combine_logs tostr st tag ts (LTable r) t))) k =
           map_of (buffer (cleanup_buffer t st)) k) \<and>
      (\<not> is_completion tostr r \<longrightarrow>
         fst (combine_logs tostr st tag ts (LTable r) t) = Inr (- 1, ts, LTable r) \<and>
         buffer_order (snd (combine_logs tostr st tag ts (LTable r) t)) =
           tl (buffer_order (cleanup_buffer t st)) @ [tid] \<and>
         map_of (buffer (snd (combine_logs tostr st tag ts (LTable r) t))) tid \<noteq> None \<and>
         length (buffer (snd (combine_logs tostr st tag ts (LTable r) t))) = MAX_BUFFER_SIZE) \<and>
      (is_completion tostr r \<longrightarrow>
         (\<exists>out. fst (combine_logs tostr st tag ts (LTable r) t) = Inr (1, ts, LTable out) \<and>
            out ''traceId'' = LStr tid \<and>
            out ''message'' = LStr (render tostr (message_of r))) \<and>
         buffer_order (snd (combine_logs tostr st tag ts (LTable r) t)) =
           tl (buffer_order (cleanup_buffer t st)))"
  proof
    assume a: "reachable tostr st \<and> r ''traceId'' = LStr tid \<and> tid \<noteq> [] \<and>
      stringlike (message_of r) \<and> map_of (buffer (cleanup_buffer t st)) tid = None \<and>
      length (buffer (cleanup_buffer t st)) = MAX_BUFFER_SIZE"
    then have i: "state_inv st" using reachable_inv [of tostr st] by simp
    show "map_of (buffer (cleanup_buffer t st)) (hd (buffer_order (cleanup_buffer t st))) \<noteq> None \<and>
      map_of (buffer (snd (combine_logs tostr st tag ts (LTable r) t)))
        (hd (buffer_order (cleanup_buffer t st))) = None \<and>
      (\<forall>k. k \<noteq> hd (buffer_order (cleanup_buffer t st)) \<and> k \<noteq> tid \<longrightarrow>
         map_of (buffer (snd (combine_logs tostr st tag ts (LTable r) t))) k =
           map_of (buffer (cleanup_buffer t st)) k) \<and>
      (\<not> is_completion tostr r \<longrightarrow>
         fst (combine_logs tostr st tag ts (LTable r) t) = Inr (- 1, ts, LTable r) \<and>
         buffer_order (snd (combine_logs tostr st tag ts (LTable r) t)) =
           tl (buffer_order (cleanup_buffer t st)) @ [tid] \<and>
         map_of (buffer (snd (combine_logs tostr st tag ts (LTable r) t))) tid \<noteq> None \<and>
         length (buffer (snd (combine_logs tostr st tag ts (LTable r) t))) = MAX_BUFFER_SIZE) \<and>
      (is_completion tostr r \<longrightarrow>
         (\<exists>out. fst (combine_logs tostr st tag ts (LTable r) t) = Inr (1, ts, LTable out) \<and>
            out ''traceId'' = LStr tid \<and>
            out ''message'' = LStr (render tostr (message_of r))) \<and>
         buffer_order (snd (combine_logs tostr st tag ts (LTable r) t)) =
           tl (buffer_order (cleanup_buffer t st)))"
      using a by (intro combine_logs_evicts [where r = r, OF i]) simp_all
  qed
next
  show "length cs = MAX_BUFFER_SIZE + 1 \<and> distinct (map call_key cs) \<and>
    (\<forall>c \<in> set cs. incomplete_call tostr c) \<and> spread_ok (map call_time cs) \<longrightarrow>
      fst (run_logs tostr init_state (map to_call cs)) = map suppressed cs \<and>
      buffer_order (snd (run_logs tostr init_state (map to_call cs))) = map call_key (tl cs) \<and>
      map fst (buffer (snd (run_logs tostr init_state (map to_call cs)))) = map call_key (tl cs) \<and>
      map_of (buffer (snd (run_logs tostr init_state (map to_call cs)))) (call_key (hd cs)) = None \<and>
      length (buffer (snd (run_logs tostr init_state (map to_call cs)))) = MAX_BUFFER_SIZE"
  proof
    assume a: "length cs = MAX_BUFFER_SIZE + 1 \<and> distinct (map call_key cs) \<and>
      (\<forall>c \<in> set cs. incomplete_call tostr c) \<and> spread_ok (map call_time cs)"
    let ?st = "snd (run_logs tostr init_state (map to_call cs))"
    have ov: "fst (run_logs tostr init_state (map to_call cs)) = map suppressed cs"
      "buffer_order ?st = map call_key (tl cs)" "map fst (buffer ?st) = map call_key (tl cs)"
      using a run_logs_overflow [of cs tostr] by simp_all
    obtain c ds where cs: "cs = c # ds" using a by (cases cs) auto
    have "call_key (hd cs) \<notin> set (map call_key (tl cs))"
      using a unfolding cs by simp
    then have "call_key (hd cs) \<notin> set (map fst (buffer ?st))"
      unfolding ov(3) .
    then have n: "map_of (buffer ?st) (call_key (hd cs)) = None"
      by (simp add: map_of_None_keys)
    have "length (map fst (buffer ?st)) = MAX_BUFFER_SIZE"
      unfolding ov(3) using a by simp
    then have "length (buffer ?st) = MAX_BUFFER_SIZE" by simp
    with ov n show "fst (run_logs tostr init_state (map to_call cs)) = map suppressed cs \<and>
      buffer_order ?st = map call_key (tl cs) \<and> map fst (buffer ?st) = map call_key (tl cs) \<and>
      map_of (buffer ?st) (call_key (hd cs)) = None \<and> length (buffer ?st) = MAX_BUFFER_SIZE"
      by simp
  qed
qed

text \<open>
  Claim C3 at the 1001 traces \<^verbatim>\<open>k\<close>, \<^verbatim>\<open>kk\<close>, ...: the state after the first 1000 is
  reachable and full, the next record evicts the trace \<^verbatim>\<open>k\<close>, and 1000 groups remain.
\<close>

theorem C3_capacity_witness:
  "reachable tostring_int st_full \<and> length (buffer st_full) = 1000 \<and>
   hd (buffer_order (cleanup_buffer 0 st_full)) = key_k 0 \<and>
   map_of (buffer (cleanup_buffer 0 st_full)) (key_k 0) \<noteq> None \<and>
   fst (combine_logs tostring_int st_full ''app'' (0::int) (LTable (table_k 1000)) 0) =
     Inr (- 1, 0, LTable (table_k 1000)) \<and>
   map_of (buffer (snd (combine_logs tostring_int st_full ''app'' (0::int) (LTable (table_k 1000)) 0)))
     (key_k 0) = None \<and>
   length (buffer (snd (combine_logs tostring_int st_full ''app'' (0::int) (LTable (table_k 1000)) 0))) = 1000 \<and>
   last (buffer_order (snd (combine_logs tostring_int st_full ''app'' (0::int) (LTable (table_k 1000)) 0))) =
     key_k 1000 \<and>
   buffer_order (snd (run_logs tostring_int init_state (map to_call (map call_k [0..<1001])))) =
     map key_k [1..<1001] \<and>
   map_of (buffer (snd (run_logs tostring_int init_state (map to_call (map call_k [0..<1001])))))
     (key_k 0) = None \<and>
   length (buffer (snd (run_logs tostring_int init_state (map to_call (map call_k [0..<1001]))))) = 1000"
proof -
  have len: "length (buffer st_full) = 1000"
    using arg_cong [OF st_full_props(3), of length] by simp
  have "key_k 1000 \<notin> set (map fst (buffer st_full))"
    unfolding st_full_props(3) by (auto simp: key_k_inj)
  then have l: "map_of (buffer st_full) (key_k 1000) = None"
    by (simp add: map_of_None_keys)
  have hd: "hd (map key_k [0..<1000]) = key_k 0"
    by (simp add: hd_map)
  have tl: "map call_key (tl (map call_k [0..<1001])) = map key_k [1..<1001]"
    by (simp add: map_tl [symmetric] call_k_props comp_def)
  have hd': "call_key (hd (map call_k [0..<1001])) = key_k 0"
    by (simp add: hd_map call_k_props)
  show ?thesis
    using C3_capacity [where tostr = tostring_int and st = st_full and r = "table_k 1000"
        and tid = "key_k 1000" and t = 0 and tag = "''app''" and ts = "0::int"
        and cs = "map call_k [0..<1001]"]
      st_full_props(1) len l distinct_keys_k [of 1001] spread_ok_k [of 1001]
    by (simp add: st_full_props call_k_props MAX_BUFFER_SIZE_def hd tl hd')
qed

subsection \<open>C4\<close>

text \<open>
  Claim C4, as stated, fails when the further records have no valid trace id: they are
  returned before \<^verbatim>\<open>cleanup_buffer\<close> is called and do not advance the counter. After one
  record of trace \<^verbatim>\<open>abc\<close> at time 0, a hundred records with no trace id at time 1000 leave
  the state as it was, with the group of \<^verbatim>\<open>abc\<close> in it, 1000 seconds old.
\<close>

theorem C4_staleness_counterexample:
  "snd (run_logs tostring_int init_state
          ((''app'', 0 :: int, LTable table_a1, 0) #
           replicate 100 (''app'', 0, LTable table_nokey, 1000))) = state_a 1 \<and>
   map_of (buffer (state_a 1)) ''abc'' = Some (entry_a 1) \<and>
   1000 - last_seen (entry_a 1) > STALE_TIMEOUT_SEC"
proof -
  have "\<not> valid_key (trace_id_of (LTable table_nokey))"
    by (simp add: table_nokey_def empty_table_def)
  then have "snd (run_logs tostring_int (state_a 1)
        (replicate 100 (''app'', 0 :: int, LTable table_nokey, 1000))) = state_a 1"
    by (intro run_logs_invalid) simp
  then show ?thesis
    by (simp add: run_logs_step step_a1_first state_a_def entry_a_def STALE_TIMEOUT_SEC_def)
qed

text \<open>
  Claim C4, amended. First, when \<^verbatim>\<open>cleanup_buffer\<close> sweeps (the counter reaches 100) in a
  reachable state, it keeps exactly the entries with \<open>current_time - last_seen\<close> at most
  30, in the buffer and in the order, and removes the others. Second, a group of trace
  \<open>k\<close> that no record touches is gone from the buffer and from the order once 100 or more
  further records with valid trace ids of other traces have been processed, each at a
  clock reading more than 30 seconds after the group's \<open>last_seen\<close>; and no call among
  them returns code \<open>1\<close> with a record of trace \<open>k\<close>.
\<close>

theorem C4_staleness:
  "(reachable tostr st \<and> \<not> cleanup_counter st + 1 < CLEANUP_INTERVAL \<longrightarrow>
      buffer (cleanup_buffer t st) =
        filter (\<lambda>(k, e). \<not> t - last_seen e > STALE_TIMEOUT_SEC) (buffer st) \<and>
      buffer_order (cleanup_buffer t st) =
        filter (\<lambda>k. \<forall>e. map_of (buffer st) k = Some e \<longrightarrow> \<not> t - last_seen e > STALE_TIMEOUT_SEC)
          (buffer_order st)) \<and>
   (reachable tostr st \<and> map_of (buffer st) k = Some e \<and> CLEANUP_INTERVAL \<le> length cs \<and>
    (\<forall>c \<in> set cs.
       (\<exists>tid. call_table c ''traceId'' = LStr tid \<and> tid \<noteq> [] \<and> tid \<noteq> k) \<and>
       call_time c - last_seen e > STALE_TIMEOUT_SEC) \<longrightarrow>
      map_of (buffer (snd (run_logs tostr st (map to_call cs)))) k = None \<and>
      k \<notin> set (buffer_order (snd (run_logs tostr st (map to_call cs)))) \<and>
      (\<forall>ts out. Inr (1, ts, LTable out) \<in> set (fst (run_logs tostr st (map to_call cs))) \<longrightarrow>
         out ''traceId'' \<noteq> LStr k))"
proof (rule conjI; rule impI)
  assume a: "reachable tostr st \<and> \<not> cleanup_counter st + 1 < CLEANUP_INTERVAL"
  then have i: "state_inv st" using reachable_inv [of tostr st] by simp
  then have "cleanup_buffer t st =
     st\<lparr>cleanup_counter := 0,
        buffer := filter (\<lambda>(k, e). \<not> stale t e) (buffer st),
        buffer_order := filter (\<lambda>k. \<forall>e. map_of (buffer st) k = Some e \<longrightarrow> \<not> stale t e) (buffer_order st)\<rparr>"
    using a by (intro cleanup_buffer_sweep) (simp_all add: state_inv_def bounded_def)
  then show "buffer (cleanup_buffer t st) =
        filter (\<lambda>(k, e). \<not> t - last_seen e > STALE_TIMEOUT_SEC) (buffer st) \<and>
      buffer_order (cleanup_buffer t st) =
        filter (\<lambda>k. \<forall>e. map_of (buffer st) k = Some e \<longrightarrow> \<not> t - last_seen e > STALE_TIMEOUT_SEC)
          (buffer_order st)"
    by (simp add: stale_def)
next
  assume a: "reachable tostr st \<and> map_of (buffer st) k = Some e \<and> CLEANUP_INTERVAL \<le> length cs \<and>
    (\<forall>c \<in> set cs.
       (\<exists>tid. call_table c ''traceId'' = LStr tid \<and> tid \<noteq> [] \<and> tid \<noteq> k) \<and>
       call_time c - last_seen e > STALE_TIMEOUT_SEC)"
  then have i: "state_inv st" using reachable_inv [of tostr st] by simp
  have oc: "\<forall>c \<in> set cs. other_call k c \<and> stale (call_time c) e"
    using a by (simp add: other_call_def stale_def)
  let ?res = "run_logs tostr st (map to_call cs)"
  have n: "map_of (buffer (snd ?res)) k = None"
    using i a oc by (intro run_logs_sweeps [where e = e]) simp_all
  have "state_inv (snd ?res)" using i by (rule state_inv_run_logs)
  then have o: "k \<notin> set (buffer_order (snd ?res))"
    using n by (simp add: state_inv_def lru_inv_notin_order)
  have "out ''traceId'' \<noteq> LStr k"
    if "Inr (1, ts, LTable out) \<in> set (fst ?res)" for ts out
    using run_logs_emits_own [where st = st and cs = cs and tostr = tostr and ts' = ts
        and out = out and k = k] i oc that
    by simp
  with n o show "map_of (buffer (snd ?res)) k = None \<and> k \<notin> set (buffer_order (snd ?res)) \<and>
      (\<forall>ts out. Inr (1, ts, LTable out) \<in> set (fst ?res) \<longrightarrow> out ''traceId'' \<noteq> LStr k)"
    by blast
qed

text \<open>
  The amended claim C4 at the state after 99 records of trace \<^verbatim>\<open>abc\<close> at time 0, swept at
  time 31, and at the state after one such record, followed by 100 records of trace
  \<^verbatim>\<open>xyz\<close> at time 31.
\<close>

theorem C4_staleness_witness:
  "reachable tostring_int st_99 \<and> cleanup_counter st_99 = 99 \<and>
   buffer st_99 = [(''abc'', entry_a 99)] \<and> buffer_order st_99 = [''abc''] \<and>
   buffer (cleanup_buffer 31 st_99) = [] \<and> buffer_order (cleanup_buffer 31 st_99) = [] \<and>
   reachable tostring_int (state_a 1) \<and>
   map_of (buffer (state_a 1)) ''abc'' = Some (entry_a 1) \<and>
   map_of (buffer (snd (run_logs tostring_int (state_a 1) (map to_call (replicate 100 call_b1))))) ''abc'' = None \<and>
   ''abc'' \<notin> set (buffer_order (snd (run_logs tostring_int (state_a 1) (map to_call (replicate 100 call_b1)))))"
proof -
  have r1: "reachable tostring_int (state_a 1)"
    using reachable_step [OF reachable_init, of tostring_int "''app''" 0 "LTable table_a1" 0]
    by (simp add: step_a1_first)
  have l1: "map_of (buffer (state_a 1)) ''abc'' = Some (entry_a 1)"
    by (simp add: state_a_def)
  show ?thesis
    using C4_staleness [of tostring_int st_99 31 "''abc''" "entry_a 1" "replicate 100 call_b1"]
      C4_staleness [of tostring_int "state_a 1" 31 "''abc''" "entry_a 1" "replicate 100 call_b1"]
      st_99_props(1) r1 l1
    by (simp add: st_99_eq state_a_def entry_a_def call_b1_props
        CLEANUP_INTERVAL_def STALE_TIMEOUT_SEC_def)
qed

subsection \<open>C5\<close>

text \<open>
  Claim C5, as stated, fails: the script validates the trace id before it calls
  \<^verbatim>\<open>cleanup_buffer\<close> (lines 71-80), so a record with no valid trace id leaves the
  counter as it was. The state after one record of trace \<^verbatim>\<open>abc\<close> has counter 1, and a
  record with no trace id leaves it at 1.
\<close>

theorem C5_counter_counterexample:
  "cleanup_counter (state_a 1) = 1 \<and>
   cleanup_counter (snd (combine_logs tostring_int (state_a 1) ''app'' (5::int) (LTable table_nokey) 99)) = 1"
  by (simp add: state_a_def table_nokey_def combine_logs_def empty_table_def)

text \<open>
  Claim C5, amended. On a call whose record has a non-empty string trace id, the counter
  is incremented, and reset to 0 when it reaches the interval of 100, in which case the
  sweep is run: every group of another trace that is older than the timeout at the time
  of the call is gone after the call. This is the first step after the trace id has been
  validated. A record whose trace id is absent, not a string or empty changes nothing
  and does not count toward the interval.
\<close>

theorem C5_counter_after_validation:
  "(r ''traceId'' = LStr tid \<and> tid \<noteq> [] \<longrightarrow>
      cleanup_counter (snd (combine_logs tostr st tag ts (LTable r) t)) =
        (if cleanup_counter st + 1 < CLEANUP_INTERVAL then cleanup_counter st + 1 else 0) \<and>
      (reachable tostr st \<and> \<not> cleanup_counter st + 1 < CLEANUP_INTERVAL \<longrightarrow>
        (\<forall>k e. k \<noteq> tid \<and> map_of (buffer st) k = Some e \<and> t - last_seen e > STALE_TIMEOUT_SEC \<longrightarrow>
           map_of (buffer (snd (combine_logs tostr st tag ts (LTable r) t))) k = None))) \<and>
   ((\<forall>s. r ''traceId'' = LStr s \<longrightarrow> s = []) \<longrightarrow>
      snd (combine_logs tostr st tag ts (LTable r) t) = st)"
proof (intro conjI impI allI)
  assume v: "r ''traceId'' = LStr tid \<and> tid \<noteq> []"
  then show "cleanup_counter (snd (combine_logs tostr st tag ts (LTable r) t)) =
        (if cleanup_counter st + 1 < CLEANUP_INTERVAL then cleanup_counter st + 1 else 0)"
    by (simp add: combine_logs_valid aggregate_counter cleanup_buffer_counter)
next
  fix k e
  assume v: "r ''traceId'' = LStr tid \<and> tid \<noteq> []"
    and s: "reachable tostr st \<and> \<not> cleanup_counter st + 1 < CLEANUP_INTERVAL"
    and k: "k \<noteq> tid \<and> map_of (buffer st) k = Some e \<and> t - last_seen e > STALE_TIMEOUT_SEC"
  have i: "state_inv st" using s reachable_inv [of tostr st] by simp
  then have "map_of (buffer (cleanup_buffer t st)) k = None"
    using s k by (simp add: cleanup_buffer_lookup state_inv_def bounded_def stale_def)
  then have "map_of (buffer (snd (aggregate tostr tid ts (LTable r) r t st))) k = None"
    using aggregate_other [of k tid tostr ts "LTable r" r t st] k by auto
  then show "map_of (buffer (snd (combine_logs tostr st tag ts (LTable r) t))) k = None"
    using v by (simp add: combine_logs_valid)
next
  assume "\<forall>s. r ''traceId'' = LStr s \<longrightarrow> s = []"
  then show "snd (combine_logs tostr st tag ts (LTable r) t) = st"
    by (cases "r ''traceId''") (auto simp: combine_logs_def)
qed

text \<open>
  The amended claim C5 at the state after 99 records of trace \<^verbatim>\<open>abc\<close> at time 0: a record
  of trace \<^verbatim>\<open>xyz\<close> at time 31 resets the counter and sweeps the group of \<^verbatim>\<open>abc\<close>; a record
  with no trace id changes nothing.
\<close>

theorem C5_counter_witness:
  "cleanup_counter st_99 = 99 \<and>
   cleanup_counter (snd (combine_logs tostring_int st_99 ''app'' (0::int) (LTable table_b1) 31)) = 0 \<and>
   map_of (buffer st_99) ''abc'' \<noteq> None \<and>
   map_of (buffer (snd (combine_logs tostring_int st_99 ''app'' (0::int) (LTable table_b1) 31))) ''abc'' = None \<and>
   snd (combine_logs tostring_int st_99 ''app'' (0::int) (LTable table_nokey) 31) = st_99"
proof -
  obtain e where e: "map_of (buffer st_99) ''abc'' = Some e" "last_seen e = 0"
    using st_99_props(4) by blast
  have b: "table_b1 ''traceId'' = LStr ''xyz''" and n: "table_nokey ''traceId'' = LNil"
    by (simp_all add: table_b1_def table_nokey_def empty_table_def)
  show ?thesis
    using C5_counter_after_validation [of table_b1 "''xyz''" tostring_int st_99 "''app''" "0::int" 31]
      C5_counter_after_validation [of table_nokey "''xyz''" tostring_int st_99 "''app''" "0::int" 31]
      st_99_props(1,2) e b n
    by (simp add: CLEANUP_INTERVAL_def STALE_TIMEOUT_SEC_def)
qed

subsection \<open>C6\<close>

text \<open>
  Claim C6. A record whose \<^verbatim>\<open>traceId\<close> is absent, the empty string or not a string is
  returned as it is with code \<open>1\<close> (passed through), and the call leaves the buffer, the
  order and the counter as they were: no group is created, touched or removed.
\<close>

theorem C6_pass_through:
  assumes "r ''traceId'' = LNil \<or> r ''traceId'' = LStr [] \<or> (\<forall>s. r ''traceId'' \<noteq> LStr s)"
  shows "combine_logs tostr st tag ts (LTable r) t = (Inr (1, ts, LTable r), st)"
  using assms by (cases "r ''traceId''") (auto simp: combine_logs_def)

text \<open>
  Claim C6 at a record with no trace id, in the state after one record of trace \<^verbatim>\<open>abc\<close>.
\<close>

theorem C6_pass_through_witness:
  "table_nokey ''traceId'' = LNil \<and>
   combine_logs tostring_int (state_a 1) ''app'' (5::int) (LTable table_nokey) 99 =
     (Inr (1, 5, LTable table_nokey), state_a 1)"
  using C6_pass_through [of table_nokey tostring_int "state_a 1" "''app''" "5::int" 99]
  by (simp add: table_nokey_def empty_table_def)

subsection \<open>C7\<close>

text \<open>
  Claim C7. In every reachable state the order lists each key of the buffer exactly once:
  it has no duplicate, and its set of keys is the buffer's set of keys. Every call of the
  filter, from any state where this holds, leads to a state where it holds.
\<close>

theorem C7_eviction_order_matches_buffer:
  "(reachable tostr st \<longrightarrow>
      distinct (buffer_order st) \<and> set (buffer_order st) = fst ` set (buffer st) \<and>
      distinct (map fst (buffer st))) \<and>
   (lru_inv st \<longrightarrow> lru_inv (snd (combine_logs tostr st tag ts rcd t)))"
  using reachable_inv [of tostr st] lru_inv_combine_logs [of st tostr tag ts rcd t]
  by (auto simp: state_inv_def lru_inv_def)

text \<open>
  Claim C7 at the state after one record of trace \<^verbatim>\<open>abc\<close>, and at the call that flushes
  that group.
\<close>

theorem C7_eviction_order_witness:
  "reachable tostring_int (state_a 1) \<and> lru_inv (state_a 1) \<and>
   buffer_order (state_a 1) = [''abc''] \<and> map fst (buffer (state_a 1)) = [''abc''] \<and>
   lru_inv (snd (combine_logs tostring_int (state_a 1) ''app'' (1::int) (LTable table_a2) 1))"
  using C7_eviction_order_matches_buffer [of tostring_int "state_a 1" "''app''" "1::int" "LTable table_a2" 1]
    reachable_state_a1
  by (simp add: lru_inv_def) (simp add: state_a_def)

subsection \<open>C8\<close>

text \<open>
  Claim C8. In a reachable state, for a record with a non-empty string trace id whose
  message reads as the string \<open>s\<close> (a string, a number, or absent and then empty), the
  call returns code \<open>1\<close> with the combined record of the trace exactly when \<open>s\<close> contains
  \<^verbatim>\<open>request completed\<close> somewhere, and code \<open>-1\<close> with the record itself otherwise. The
  duplicate-completion guard does not fire in a reachable state.
\<close>

theorem C8_completion_by_substring:
  assumes "reachable tostr st" and "r ''traceId'' = LStr tid" and "tid \<noteq> []"
    and "string_arg tostr (lua_or (r ''message'') (LStr [])) = Inr s"
  shows "((\<exists>a b. s = a @ ''request completed'' @ b) \<longrightarrow>
            (\<exists>e joined. fst (combine_logs tostr st tag ts (LTable r) t) =
                 Inr (1, ts, combined_record e joined) \<and> traceId e = tid)) \<and>
         (\<not> (\<exists>a b. s = a @ ''request completed'' @ b) \<longrightarrow>
            fst (combine_logs tostr st tag ts (LTable r) t) = Inr (- 1, ts, LTable r))"
proof -
  let ?m = "lua_or (r ''message'') (LStr [])"
  have ok: "entries_ok st" using assms(1) reachable_inv [of tostr st] by (simp add: state_inv_def)
  have f: "string_find tostr ?m completion_marker = Inr (str_find s completion_marker)"
    using assms(4) by (simp add: string_find_def)
  have c: "str_find s completion_marker \<noteq> None \<longleftrightarrow> (\<exists>a b. s = a @ ''request completed'' @ b)"
    unfolding str_find_iff by (simp add: completion_marker_def)
  have cl: "combine_logs tostr st tag ts (LTable r) t = aggregate tostr tid ts (LTable r) r t st"
    using assms(2,3) by (simp add: combine_logs_valid)
  show ?thesis
  proof (cases "map_of (buffer (cleanup_buffer t st)) tid")
    case None
    show ?thesis
      unfolding cl aggregate_new [where r = r and ts = ts and rcd = "LTable r", OF f None] c [symmetric]
      by (auto simp: Let_def new_entry_def)
  next
    case (Some e)
    have "traceId e = tid"
      using entries_ok_lookup [OF entries_ok_cleanup_buffer [OF ok] Some] by (simp add: entry_ok_def)
    then show ?thesis
      unfolding cl aggregate_existing [where r = r and ts = ts and rcd = "LTable r", OF ok f Some]
        c [symmetric]
      by (auto simp: Let_def)
  qed
qed

text \<open>
  Claim C8 at the two records of Scenario A, in the state after one record of the trace.
\<close>

theorem C8_completion_witness:
  "fst (combine_logs tostring_int (state_a 1) ''app'' (7::int) (LTable table_a1) 1) =
     Inr (- 1, 7, LTable table_a1) \<and>
   (\<exists>e joined. fst (combine_logs tostring_int (state_a 1) ''app'' (7::int) (LTable table_a2) 1) =
      Inr (1, 7, combined_record e joined) \<and> traceId e = ''abc'')"
proof -
  have a: "string_arg tostring_int (lua_or (table_a1 ''message'') (LStr [])) = Inr ''handler finished''"
    and b: "string_arg tostring_int (lua_or (table_a2 ''message'') (LStr [])) = Inr ''request completed''"
    by (simp_all add: table_a1_def table_a2_def lua_or_def)
  have na: "\<not> (\<exists>x y. ''handler finished'' = x @ ''request completed'' @ y)"
    unfolding str_find_iff [symmetric] by simp
  have yb: "\<exists>x y. ''request completed'' = x @ ''request completed'' @ y"
    unfolding str_find_iff [symmetric] by simp
  show ?thesis
    using C8_completion_by_substring [OF reachable_state_a1 table_a1_props(1) _ a, of "''app''" "7::int" 1]
      C8_completion_by_substring [OF reachable_state_a1 table_a2_props(1) _ b, of "''app''" "7::int" 1]
      na yb
    by simp
qed

subsection \<open>C9\<close>

text \<open>
  Claim C9. When a record is applied to the live group \<open>e\<close> of its trace, each of
  \<^verbatim>\<open>method\<close>, \<^verbatim>\<open>path\<close>, \<^verbatim>\<open>status\<close> and \<^verbatim>\<open>latencyMs\<close> that the record has (not nil) replaces
  the stored value, and each that it lacks leaves the stored value as it was: in the
  entry that stays in the buffer when the record is no completion signal, and in the
  record that is emitted when it is one.
\<close>

theorem C9_last_write_wins_per_field:
  assumes "reachable tostr st" and "r ''traceId'' = LStr tid" and "tid \<noteq> []"
    and "string_arg tostr (lua_or (r ''message'') (LStr [])) = Inr s"
    and "map_of (buffer (cleanup_buffer t st)) tid = Some e"
  shows "(str_find s completion_marker = None \<longrightarrow>
           (\<exists>e'. map_of (buffer (snd (combine_logs tostr st tag ts (LTable r) t))) tid = Some e' \<and>
              method_field e' = (if r ''method'' = LNil then method_field e else r ''method'') \<and>
              path e' = (if r ''path'' = LNil then path e else r ''path'') \<and>
              status e' = (if r ''status'' = LNil then status e else r ''status'') \<and>
              latencyMs e' = (if r ''latencyMs'' = LNil then latencyMs e else r ''latencyMs''))) \<and>
         (str_find s completion_marker \<noteq> None \<longrightarrow>
           (\<exists>out. fst (combine_logs tostr st tag ts (LTable r) t) = Inr (1, ts, LTable out) \<and>
              out ''method'' = (if r ''method'' = LNil then method_field e else r ''method'') \<and>
              out ''path'' = (if r ''path'' = LNil then path e else r ''path'') \<and>
              out ''status'' = (if r ''status'' = LNil then status e else r ''status'') \<and>
              out ''latencyMs'' = (if r ''latencyMs'' = LNil then latencyMs e else r ''latencyMs'')))"
proof -
  let ?m = "lua_or (r ''message'') (LStr [])"
  have ok: "entries_ok st" using assms(1) reachable_inv [of tostr st] by (simp add: state_inv_def)
  have f: "string_find tostr ?m completion_marker = Inr (str_find s completion_marker)"
    using assms(4) by (simp add: string_find_def)
  have cl: "combine_logs tostr st tag ts (LTable r) t = aggregate tostr tid ts (LTable r) r t st"
    using assms(2,3) by (simp add: combine_logs_valid)
  show ?thesis
    unfolding cl aggregate_existing [where r = r and ts = ts and rcd = "LTable r", OF ok f assms(5)]
    by (simp add: Let_def AList.update_conv' apply_record_fields combined_record_table
        combined_table_fields)
qed

text \<open>
  Claim C9 at a group with method \<^verbatim>\<open>GET\<close> and path \<^verbatim>\<open>/hello\<close>: a record that sets only the
  status leaves the method and the path as they were, in the buffer and in the record
  emitted at completion.
\<close>

theorem C9_last_write_wins_witness:
  "map_of (buffer (cleanup_buffer 1 state_p)) ''abc'' = Some entry_p \<and>
   path entry_p = LStr ''/hello'' \<and> status entry_p = LNil \<and>
   table_p2 ''path'' = LNil \<and> table_p2 ''status'' = LNum 200 \<and>
   (\<exists>e'. map_of (buffer (snd (combine_logs tostring_int state_p ''app'' (0::int) (LTable table_p2) 1)))
            ''abc'' = Some e' \<and>
      method_field e' = LStr ''GET'' \<and> path e' = LStr ''/hello'' \<and>
      status e' = LNum 200 \<and> latencyMs e' = LNil) \<and>
   (\<exists>out. fst (combine_logs tostring_int state_p ''app'' (0::int) (LTable table_a2) 1) =
              Inr (1, 0, LTable out) \<and>
      out ''method'' = LStr ''GET'' \<and> out ''path'' = LStr ''/hello'' \<and>
      out ''status'' = LNum 200 \<and> out ''latencyMs'' = LNum 52)"
proof -
  have l: "map_of (buffer (cleanup_buffer 1 state_p)) ''abc'' = Some entry_p"
    by (simp add: state_p_def cleanup_buffer_def Let_def CLEANUP_INTERVAL_def)
  have k: "table_p2 ''traceId'' = LStr ''abc''" "table_a2 ''traceId'' = LStr ''abc''"
    by (simp_all add: table_p2_def table_a2_def)
  have a: "string_arg tostring_int (lua_or (table_p2 ''message'') (LStr [])) = Inr ''handler finished''"
    and b: "string_arg tostring_int (lua_or (table_a2 ''message'') (LStr [])) = Inr ''request completed''"
    by (simp_all add: table_p2_def table_a2_def lua_or_def)
  have f: "str_find ''handler finished'' completion_marker = None"
    "str_find ''request completed'' completion_marker \<noteq> None"
    by (simp_all add: completion_marker_def)
  have v: "table_p2 ''method'' = LNil" "table_p2 ''path'' = LNil" "table_p2 ''status'' = LNum 200"
    "table_p2 ''latencyMs'' = LNil" "table_a2 ''method'' = LNil" "table_a2 ''path'' = LNil"
    "table_a2 ''status'' = LNum 200" "table_a2 ''latencyMs'' = LNum 52"
    by (simp_all add: table_p2_def table_a2_def empty_table_def)
  show ?thesis
    using C9_last_write_wins_per_field [OF reachable_state_p k(1) _ a l, of "''app''" "0::int"]
      C9_last_write_wins_per_field [OF reachable_state_p k(2) _ b l, of "''app''" "0::int"]
      l f
    by (simp add: v entry_p_def)
qed

subsection \<open>C10\<close>

text \<open>
  Claim C10. In every reachable state no entry of the buffer has its completed flag set,
  also after the cleanup that precedes the lookup, so the guard of lines 113-117 (an
  existing entry with the flag set) never fires.
\<close>

theorem C10_live_groups_not_completed:
  assumes "reachable tostr st"
  shows "(\<forall>(k, e) \<in> set (buffer st). \<not> completed e) \<and>
         (\<forall>t k e. map_of (buffer (cleanup_buffer t st)) k = Some e \<longrightarrow> \<not> completed e)"
proof -
  have ok: "entries_ok st" using assms reachable_inv [of tostr st] by (simp add: state_inv_def)
  then have "entries_ok (cleanup_buffer t st)" for t by (rule entries_ok_cleanup_buffer)
  then have "\<not> completed e" if "map_of (buffer (cleanup_buffer t st)) k = Some e" for t k e
    using entries_ok_lookup [OF _ that] by (simp add: entry_ok_def)
  then show ?thesis using ok by (auto simp: entries_ok_def)
qed

text \<open>
  Claim C10 at the state after one record of trace \<^verbatim>\<open>abc\<close>.
\<close>

theorem C10_live_groups_witness:
  "reachable tostring_int (state_a 1) \<and>
   map_of (buffer (state_a 1)) ''abc'' = Some (entry_a 1) \<and>
   map_of (buffer (cleanup_buffer 7 (state_a 1))) ''abc'' = Some (entry_a 1) \<and>
   \<not> completed (entry_a 1)"
proof -
  have l: "map_of (buffer (cleanup_buffer 7 (state_a 1))) ''abc'' = Some (entry_a 1)"
    by (simp add: state_a_def cleanup_buffer_def Let_def CLEANUP_INTERVAL_def)
  show ?thesis
    using C10_live_groups_not_completed [OF reachable_state_a1] reachable_state_a1 l
    by (simp add: state_a_def)
qed

end
